theory Spec2Isabelle
  imports Main
begin

section \<open>Data model\<close>

text \<open>
  The scorer is one React component whose persisted fields form the session state.
  The sources hold two revisions of it. The model follows the later one
  (\<^verbatim>\<open>src/unnamed/part_001\<close>), which checks the trick count in \<open>finishRound\<close>, guards
  the three scoring inputs against an absent player index and reads the scores of the
  history with \<^verbatim>\<open>?.score ?? 0\<close>; the earlier one (\<^verbatim>\<open>src/skull-king-scorer.tsx\<close>) does
  none of the three and has the same operations otherwise.
  JavaScript numbers are modelled as mathematical integers: every number the component
  handles is an integer far below \<open>2^53\<close>, where double arithmetic is exact.
\<close>

record Player =
  name :: string
  totalScore :: int

record PlayerRoundData =
  bid :: int
  tricks :: int
  piratesCapture :: int
  skullKingCapture :: bool

text \<open>\<^verbatim>\<open>interface RoundScore extends PlayerRoundData { score: number }\<close>\<close>

record RoundScore = PlayerRoundData +
  score :: int

text \<open>
  \<^verbatim>\<open>Record<number, V>\<close>: a JavaScript object whose keys are player indices. Such an
  object enumerates its integer keys in ascending order, so it is an association list
  that every write keeps in ascending key order.
\<close>

type_synonym 'v Record = "(nat \<times> 'v) list"

record GameHistoryEntry =
  round :: int
  scores :: "RoundScore Record"

datatype RoundPhase = Bidding | Scoring | Complete

text \<open>
  What \<open>roundData\<close> holds at run time under one key. \<open>Typed d\<close> is an object with all
  four fields of \<open>PlayerRoundData\<close>. \<open>BidOnly b k\<close> is the object that \<open>setBid\<close> creates
  when the key is absent, \<^verbatim>\<open>{ ...undefined, bid: value }\<close>: its \<open>bid\<close> is \<open>b\<close>, its
  \<open>tricks\<close> and \<open>piratesCapture\<close> are \<open>undefined\<close> (or \<open>NaN\<close> once a stepper has added to
  them) and never become numbers again, and \<open>k\<close> is the truthiness of its
  \<open>skullKingCapture\<close>.
\<close>

datatype RoundEntry = Typed PlayerRoundData | BidOnly int bool

record PhaseSnapshot =
  roundData :: "RoundEntry Record"
  players :: "Player list"
  currentRound :: int
  roundPhase :: RoundPhase
  gameHistory :: "GameHistoryEntry list"

text \<open>
  The persisted state of the component: the five fields a snapshot copies, plus
  \<open>gameStarted\<close> and the undo log \<open>phaseHistory\<close>. The transient fields of the view
  (\<open>playerName\<close>, \<open>showHistory\<close>, \<open>editingBid\<close>) are not part of the session; the text of
  the name input is the argument of \<open>addPlayer\<close>.
\<close>

record Session = PhaseSnapshot +
  gameStarted :: bool
  phaseHistory :: "PhaseSnapshot list"

section \<open>Scoring engine\<close>

text \<open>\<open>calculateScore\<close> reads \<open>currentRound\<close> from the component; here it is the first argument.\<close>

definition calculateScore :: "int \<Rightarrow> PlayerRoundData \<Rightarrow> int" where
  "calculateScore cur data =
     (if bid data = 0 then
        (if tricks data = 0 then cur * 10 else - (cur * 10))
      else
        (if bid data = tricks data then
           (let score0 = tricks data * 20;
                score1 = score0 + piratesCapture data * 30;
                score2 = (if skullKingCapture data then score1 + 50 else score1)
            in score2)
         else - \<bar>bid data - tricks data\<bar> * 10))"

section \<open>Records keyed by player index\<close>

text \<open>\<^verbatim>\<open>obj[k]\<close>: the value under a key, \<open>None\<close> for \<^verbatim>\<open>undefined\<close>.\<close>

definition lookup :: "'v Record \<Rightarrow> nat \<Rightarrow> 'v option" where
  "lookup obj k = map_of obj k"

text \<open>
  \<^verbatim>\<open>{ ...obj, [k]: v }\<close> and \<^verbatim>\<open>obj[k] = v\<close>: an existing key keeps its place and gets the
  new value, a new key takes its place in ascending order.
\<close>

fun rec_set :: "nat \<Rightarrow> 'v \<Rightarrow> 'v Record \<Rightarrow> 'v Record" where
  "rec_set k v [] = [(k, v)]"
| "rec_set k v ((k', v') # obj) =
     (if k < k' then (k, v) # (k', v') # obj
      else if k = k' then (k, v) # obj
      else (k', v') # rec_set k v obj)"

text \<open>\<^verbatim>\<open>Object.entries\<close>, \<^verbatim>\<open>Object.values\<close> and \<^verbatim>\<open>Object.fromEntries\<close>.\<close>

definition entries :: "'v Record \<Rightarrow> (nat \<times> 'v) list" where
  "entries obj = obj"

definition values_of :: "'v Record \<Rightarrow> 'v list" where
  "values_of obj = map snd obj"

definition fromEntries :: "(nat \<times> 'v) list \<Rightarrow> 'v Record" where
  "fromEntries kvs = foldl (\<lambda>obj (k, v). rec_set k v obj) [] kvs"

text \<open>\<^verbatim>\<open>array.findIndex(p)\<close>: the first index whose element satisfies \<open>p\<close>; \<open>None\<close> for \<open>-1\<close>.\<close>

fun findIndex :: "('a \<Rightarrow> bool) \<Rightarrow> 'a list \<Rightarrow> nat option" where
  "findIndex p [] = None"
| "findIndex p (x # xs) = (if p x then Some 0 else map_option Suc (findIndex p xs))"

section \<open>Undo log\<close>

text \<open>
  The deep copies of \<open>savePhaseSnapshot\<close>, \<open>performUndo\<close> and \<open>finishRound\<close>. A spread
  \<^verbatim>\<open>{ ...v }\<close> is a new object with the fields of \<open>v\<close>: the same value.
\<close>

definition cloneRecord :: "'v Record \<Rightarrow> 'v Record" where
  "cloneRecord obj = fromEntries (map (\<lambda>(k, v). (k, v)) (entries obj))"

definition clonePlayers :: "Player list \<Rightarrow> Player list" where
  "clonePlayers ps = map (\<lambda>p. p) ps"

definition cloneGameHistory :: "GameHistoryEntry list \<Rightarrow> GameHistoryEntry list" where
  "cloneGameHistory h = map (\<lambda>entry. entry\<lparr>scores := cloneRecord (scores entry)\<rparr>) h"

text \<open>
  Appending to the log, as \<open>savePhaseSnapshot\<close> (lines 131-136) and \<open>finishRound\<close>
  (lines 312-316) both do: append, then drop the oldest snapshot once if the log is
  longer than 20.
\<close>

definition pushSnapshot :: "'a list \<Rightarrow> 'a \<Rightarrow> 'a list" where
  "pushSnapshot history snapshot =
     (let newHistory = history @ [snapshot]
      in if length newHistory > 20 then tl newHistory else newHistory)"

definition savePhaseSnapshot :: "Session \<Rightarrow> Session" where
  "savePhaseSnapshot s =
     (let snapshot = \<lparr>roundData = cloneRecord (roundData s),
                      players = clonePlayers (players s),
                      currentRound = currentRound s,
                      roundPhase = roundPhase s,
                      gameHistory = cloneGameHistory (gameHistory s)\<rparr>
      in s\<lparr>phaseHistory := pushSnapshot (phaseHistory s) snapshot\<rparr>)"

text \<open>
  The head of \<open>performUndo\<close> (lines 140-143): nothing on an empty log, else the copy of
  the log without its last snapshot, and that snapshot.
\<close>

definition popSnapshot :: "'a list \<Rightarrow> ('a \<times> 'a list) option" where
  "popSnapshot history =
     (if length history = 0 then None else Some (last history, butlast history))"

definition performUndo :: "Session \<Rightarrow> Session" where
  "performUndo s =
     (case popSnapshot (phaseHistory s) of
        None \<Rightarrow> s
      | Some (snapshot, newHistory) \<Rightarrow>
          s\<lparr>phaseHistory := newHistory,
            roundData := cloneRecord (roundData snapshot),
            players := clonePlayers (players snapshot),
            currentRound := currentRound snapshot,
            roundPhase := roundPhase snapshot,
            gameHistory := cloneGameHistory (gameHistory snapshot)\<rparr>)"

text \<open>The snapshots that popping until the log is empty returns, most recent first.\<close>

function popAll :: "'a list \<Rightarrow> 'a list" where
  "popAll history =
     (case popSnapshot history of
        None \<Rightarrow> []
      | Some (snapshot, newHistory) \<Rightarrow> snapshot # popAll newHistory)"
  by pat_completeness auto
termination
  by (relation "measure length") (auto simp: popSnapshot_def split: if_splits)

section \<open>Round controller\<close>

text \<open>
  \<^verbatim>\<open>String.prototype.trim\<close> on the name input. Names are modelled over ASCII, whose
  white space is tab, line feed, vertical tab, form feed, carriage return and space.
\<close>

definition is_space :: "char \<Rightarrow> bool" where
  "is_space c = (c \<in> set [CHR 0x09, CHR 0x0A, CHR 0x0B, CHR 0x0C, CHR 0x0D, CHR 0x20])"

definition trim :: "string \<Rightarrow> string" where
  "trim str = rev (dropWhile is_space (rev (dropWhile is_space str)))"

definition addPlayer :: "string \<Rightarrow> Session \<Rightarrow> Session" where
  "addPlayer playerName s =
     (if trim playerName \<noteq> [] \<and> length (players s) < 6
      then s\<lparr>players := players s @ [\<lparr>name = trim playerName, totalScore = 0\<rparr>]\<rparr>
      else s)"

definition removePlayer :: "nat \<Rightarrow> Session \<Rightarrow> Session" where
  "removePlayer index s =
     s\<lparr>players := map snd (filter (\<lambda>(i, _). i \<noteq> index) (enumerate 0 (players s)))\<rparr>"

definition emptyRoundData :: PlayerRoundData where
  "emptyRoundData = \<lparr>bid = 0, tricks = 0, piratesCapture = 0, skullKingCapture = False\<rparr>"

text \<open>
  \<^verbatim>\<open>players.forEach((_, i) => { initialRoundData[i] = {bid: 0, ...} })\<close>, in \<open>startGame\<close>
  and again in \<open>finishRound\<close>.
\<close>

definition initialRoundData :: "Player list \<Rightarrow> RoundEntry Record" where
  "initialRoundData ps =
     foldl (\<lambda>obj i. rec_set i (Typed emptyRoundData) obj) [] [0..<length ps]"

definition startGame :: "Session \<Rightarrow> Session" where
  "startGame s =
     (if length (players s) \<ge> 2
      then s\<lparr>roundData := initialRoundData (players s),
             gameStarted := True,
             phaseHistory := []\<rparr>
      else s)"

text \<open>
  \<open>setBid\<close> has no guard: \<^verbatim>\<open>{ ...prev[playerIndex], bid: value }\<close> spreads \<^verbatim>\<open>undefined\<close>
  to nothing when the key is absent and writes an object that has a \<open>bid\<close> only.
\<close>

definition setBid :: "nat \<Rightarrow> int \<Rightarrow> Session \<Rightarrow> Session" where
  "setBid playerIndex val s =
     s\<lparr>roundData :=
         rec_set playerIndex
           (case lookup (roundData s) playerIndex of
              None \<Rightarrow> BidOnly val False
            | Some (Typed current) \<Rightarrow> Typed (current\<lparr>bid := val\<rparr>)
            | Some (BidOnly _ k) \<Rightarrow> BidOnly val k)
           (roundData s)\<rparr>"

text \<open>
  The three scoring inputs return \<open>prev\<close> when the key is absent. On a \<open>BidOnly\<close> object
  the arithmetic gives \<open>NaN\<close>, which leaves the object \<open>BidOnly\<close>.
\<close>

definition updateTricks :: "nat \<Rightarrow> int \<Rightarrow> Session \<Rightarrow> Session" where
  "updateTricks playerIndex delta s =
     (case lookup (roundData s) playerIndex of
        None \<Rightarrow> s
      | Some (Typed current) \<Rightarrow>
          s\<lparr>roundData := rec_set playerIndex
              (Typed (current\<lparr>tricks := max 0 (min (currentRound s) (tricks current + delta))\<rparr>))
              (roundData s)\<rparr>
      | Some (BidOnly b k) \<Rightarrow>
          s\<lparr>roundData := rec_set playerIndex (BidOnly b k) (roundData s)\<rparr>)"

definition updatePiratesCapture :: "nat \<Rightarrow> int \<Rightarrow> Session \<Rightarrow> Session" where
  "updatePiratesCapture playerIndex delta s =
     (case lookup (roundData s) playerIndex of
        None \<Rightarrow> s
      | Some (Typed current) \<Rightarrow>
          s\<lparr>roundData := rec_set playerIndex
              (Typed (current\<lparr>piratesCapture := max 0 (min 5 (piratesCapture current + delta))\<rparr>))
              (roundData s)\<rparr>
      | Some (BidOnly b k) \<Rightarrow>
          s\<lparr>roundData := rec_set playerIndex (BidOnly b k) (roundData s)\<rparr>)"

definition toggleSkullKingCapture :: "nat \<Rightarrow> Session \<Rightarrow> Session" where
  "toggleSkullKingCapture playerIndex s =
     (case lookup (roundData s) playerIndex of
        None \<Rightarrow> s
      | Some (Typed current) \<Rightarrow>
          s\<lparr>roundData := rec_set playerIndex
              (Typed (current\<lparr>skullKingCapture := \<not> skullKingCapture current\<rparr>))
              (roundData s)\<rparr>
      | Some (BidOnly b k) \<Rightarrow>
          s\<lparr>roundData := rec_set playerIndex (BidOnly b (\<not> k)) (roundData s)\<rparr>)"

definition confirmBids :: "Session \<Rightarrow> Session" where
  "confirmBids s = (savePhaseSnapshot s)\<lparr>roundPhase := Scoring\<rparr>"

text \<open>
  What \<open>finishRound\<close> signals: it returns normally, or alerts the trick-count mismatch
  and returns, or throws the \<open>TypeError\<close> of destructuring \<^verbatim>\<open>undefined\<close> inside
  \<open>calculateScore\<close> when a player has no entry in \<open>roundData\<close>.
\<close>

datatype Outcome = Finished | ValidationFailure | TypeError

text \<open>
  The entries of \<open>roundData\<close> as \<open>PlayerRoundData\<close>, when every one of them is \<open>Typed\<close>.
  A \<open>BidOnly\<close> entry makes the sum of the tricks \<open>NaN\<close>, which differs from every
  round number.
\<close>

definition typedRecord :: "RoundEntry Record \<Rightarrow> PlayerRoundData Record option" where
  "typedRecord obj =
     those (map (\<lambda>(k, e). case e of Typed d \<Rightarrow> Some (k, d) | BidOnly _ _ \<Rightarrow> None) obj)"

text \<open>
  \<^verbatim>\<open>Object.values(roundData).reduce((sum, data) => sum + data.tricks, 0)\<close>, on typed
  entries and on any \<open>roundData\<close>, where \<open>None\<close> is \<open>NaN\<close>.
\<close>

definition sumTricks :: "PlayerRoundData Record \<Rightarrow> int" where
  "sumTricks rd = foldl (\<lambda>sum data. sum + tricks data) 0 (values_of rd)"

definition totalTricks :: "RoundEntry Record \<Rightarrow> int option" where
  "totalTricks obj = map_option sumTricks (typedRecord obj)"

text \<open>\<^verbatim>\<open>entry.scores[i]?.score ?? 0\<close>\<close>

definition scoreOrZero :: "GameHistoryEntry \<Rightarrow> nat \<Rightarrow> int" where
  "scoreOrZero entry i = (case lookup (scores entry) i of None \<Rightarrow> 0 | Some rs \<Rightarrow> score rs)"

text \<open>
  The callback of \<^verbatim>\<open>players.map((player, i) => ...)\<close> in \<open>finishRound\<close>: the entry it writes
  into \<open>roundScores\<close> and the player it returns; \<open>None\<close> when \<open>roundData[i]\<close> is absent and
  \<open>calculateScore\<close> throws.
\<close>

definition finishPlayer ::
  "int \<Rightarrow> GameHistoryEntry list \<Rightarrow> PlayerRoundData Record \<Rightarrow> nat \<Rightarrow> Player
     \<Rightarrow> ((nat \<times> RoundScore) \<times> Player) option" where
  "finishPlayer cur previousRounds rd i player =
     (case lookup rd i of
        None \<Rightarrow> None
      | Some data \<Rightarrow>
          let score = calculateScore cur data;
              previousTotal = foldl (\<lambda>sum entry. sum + scoreOrZero entry i) 0 previousRounds;
              total = previousTotal + score
          in Some ((i, \<lparr>bid = bid data, tricks = tricks data,
                        piratesCapture = piratesCapture data,
                        skullKingCapture = skullKingCapture data, score = score\<rparr>),
                   player\<lparr>totalScore := total\<rparr>))"

text \<open>
  The local constants of \<open>finishRound\<close>: the position of an entry for the current
  round, the history without that entry, and the history with the new entry in its
  place or at the end.
\<close>

definition existingRoundIndex :: "Session \<Rightarrow> nat option" where
  "existingRoundIndex s = findIndex (\<lambda>entry. round entry = currentRound s) (gameHistory s)"

definition previousRounds :: "Session \<Rightarrow> GameHistoryEntry list" where
  "previousRounds s =
     (case existingRoundIndex s of
        Some idx \<Rightarrow> take idx (gameHistory s) @ drop (idx + 1) (gameHistory s)
      | None \<Rightarrow> gameHistory s)"

definition updatedHistory :: "Session \<Rightarrow> RoundScore Record \<Rightarrow> GameHistoryEntry list" where
  "updatedHistory s roundScores =
     (case existingRoundIndex s of
        Some idx \<Rightarrow> take idx (gameHistory s)
                      @ [\<lparr>round = currentRound s, scores = roundScores\<rparr>]
                      @ drop (idx + 1) (gameHistory s)
      | None \<Rightarrow> gameHistory s @ [\<lparr>round = currentRound s, scores = roundScores\<rparr>])"

text \<open>
  \<^verbatim>\<open>players.map((player, i) => ...)\<close> over the typed round data: one row per player, or
  \<open>None\<close> when the callback throws.
\<close>

definition finishRows ::
  "Session \<Rightarrow> PlayerRoundData Record \<Rightarrow> ((nat \<times> RoundScore) \<times> Player) list option" where
  "finishRows s rd =
     those (map (\<lambda>(i, player). finishPlayer (currentRound s) (previousRounds s) rd i player)
                (enumerate 0 (players s)))"

definition finishRound :: "Session \<Rightarrow> Outcome \<times> Session" where
  "finishRound s =
     (case typedRecord (roundData s) of
        None \<Rightarrow> (ValidationFailure, s)
      | Some rd \<Rightarrow>
          if sumTricks rd \<noteq> currentRound s then (ValidationFailure, s)
          else
            (case finishRows s rd of
               None \<Rightarrow> (TypeError, s)
             | Some rows \<Rightarrow>
                 let roundScores = fromEntries (map fst rows);
                     updatedPlayers = map snd rows;
                     updatedHistory = updatedHistory s roundScores
                 in if currentRound s < 10 then
                      let snapshot = \<lparr>roundData = cloneRecord (roundData s),
                                       players = clonePlayers updatedPlayers,
                                       currentRound = currentRound s,
                                       roundPhase = Scoring,
                                       gameHistory = cloneGameHistory updatedHistory\<rparr>;
                          newPhaseHistory = pushSnapshot (phaseHistory s) snapshot;
                          newRoundData = initialRoundData updatedPlayers
                      in (Finished,
                          s\<lparr>gameHistory := updatedHistory,
                            players := updatedPlayers,
                            phaseHistory := newPhaseHistory,
                            roundData := newRoundData,
                            currentRound := currentRound s + 1,
                            roundPhase := Bidding\<rparr>)
                    else
                      (Finished,
                       s\<lparr>gameHistory := updatedHistory,
                         players := updatedPlayers,
                         roundPhase := Complete\<rparr>)))"

definition resetGame :: "Session \<Rightarrow> Session" where
  "resetGame s =
     s\<lparr>players := map (\<lambda>p. p\<lparr>totalScore := 0\<rparr>) (players s),
       gameStarted := False,
       currentRound := 1,
       roundPhase := Bidding,
       roundData := [],
       gameHistory := [],
       phaseHistory := []\<rparr>"

text \<open>The two operations behind \<^verbatim>\<open>window.confirm\<close>; the argument is the user's answer.\<close>

definition clearPlayers :: "bool \<Rightarrow> Session \<Rightarrow> Session" where
  "clearPlayers confirmed s = (if confirmed then s\<lparr>players := []\<rparr> else s)"

definition endGameEarly :: "bool \<Rightarrow> Session \<Rightarrow> Session" where
  "endGameEarly confirmed s = (if confirmed then s\<lparr>roundPhase := Complete\<rparr> else s)"

section \<open>Object identities\<close>

text \<open>
  To speak about aliasing, the collections that a snapshot copies are modelled a second
  time with the identity of every object. An object is its address and its contents;
  the allocator hands out \<open>nextAddr\<close> and counts up. Arrays and records are objects
  whose elements are objects; numbers, strings and booleans have no identity.
\<close>

type_synonym addr = nat

type_synonym 'a ref = "addr \<times> 'a"

text \<open>
  A \<^verbatim>\<open>Record<number, V>\<close> object with its value objects, and a \<open>GameHistoryEntry\<close>
  object: its round and its \<open>scores\<close> object.
\<close>

type_synonym 'v RecordObj = "(nat \<times> 'v ref) list ref"

type_synonym EntryObj = "(int \<times> RoundScore RecordObj) ref"

text \<open>The five fields of a snapshot and the session, over objects.\<close>

record SnapshotObj =
  roundDataObj :: "RoundEntry RecordObj"
  playersObj :: "Player ref list ref"
  currentRoundObj :: int
  roundPhaseObj :: RoundPhase
  gameHistoryObj :: "EntryObj list ref"

record SessionObj = SnapshotObj +
  gameStartedObj :: bool
  phaseHistoryObj :: "SnapshotObj list"
  nextAddr :: addr

text \<open>
  Object creation. \<open>newObject\<close> is an array or object literal, \<open>spread\<close> is \<^verbatim>\<open>{ ...v }\<close>
  on an object whose fields are primitive, \<open>mapAlloc\<close> is \<^verbatim>\<open>array.map\<close> with a callback
  that allocates.
\<close>

definition newObject :: "'a \<Rightarrow> addr \<Rightarrow> 'a ref \<times> addr" where
  "newObject v n = ((n, v), Suc n)"

definition spread :: "'a ref \<Rightarrow> addr \<Rightarrow> 'a ref \<times> addr" where
  "spread v n = newObject (snd v) n"

fun mapAlloc :: "('a \<Rightarrow> addr \<Rightarrow> 'b \<times> addr) \<Rightarrow> 'a list \<Rightarrow> addr \<Rightarrow> 'b list \<times> addr" where
  "mapAlloc f [] n = ([], n)"
| "mapAlloc f (x # xs) n =
     (let (y, n1) = f x n;
          (ys, n2) = mapAlloc f xs n1
      in (y # ys, n2))"

text \<open>
  The three deep copies of lines 118-129 and 147-162: every value object of a record
  is spread and \<^verbatim>\<open>Object.fromEntries\<close> makes the new record; every player is spread into
  a new array; every history entry is spread with a deep copy of its \<open>scores\<close> into a
  new array.
\<close>

definition cloneRecordObj :: "'v RecordObj \<Rightarrow> addr \<Rightarrow> 'v RecordObj \<times> addr" where
  "cloneRecordObj obj n =
     (let (kvs, n1) = mapAlloc (\<lambda>(k, v) m. let (v', m') = spread v m in ((k, v'), m'))
                         (entries (snd obj)) n
      in newObject (fromEntries kvs) n1)"

definition clonePlayersObj :: "Player ref list ref \<Rightarrow> addr \<Rightarrow> Player ref list ref \<times> addr" where
  "clonePlayersObj ps n =
     (let (ps', n1) = mapAlloc spread (snd ps) n
      in newObject ps' n1)"

definition cloneEntryObj :: "EntryObj \<Rightarrow> addr \<Rightarrow> EntryObj \<times> addr" where
  "cloneEntryObj entry n =
     (let (scores', n1) = cloneRecordObj (snd (snd entry)) n
      in newObject (fst (snd entry), scores') n1)"

definition cloneGameHistoryObj :: "EntryObj list ref \<Rightarrow> addr \<Rightarrow> EntryObj list ref \<times> addr" where
  "cloneGameHistoryObj h n =
     (let (es, n1) = mapAlloc cloneEntryObj (snd h) n
      in newObject es n1)"

text \<open>
  \<open>savePhaseSnapshot\<close> and \<open>performUndo\<close> with their allocations. The arrays that
  \<^verbatim>\<open>Object.entries\<close> and \<^verbatim>\<open>.map\<close> build on the way, the snapshot object and the new log
  array are referenced by no collection afterwards and get no address.
\<close>

definition savePhaseSnapshotObj :: "SessionObj \<Rightarrow> SessionObj" where
  "savePhaseSnapshotObj s =
     (let (rd, n1) = cloneRecordObj (roundDataObj s) (nextAddr s);
          (ps, n2) = clonePlayersObj (playersObj s) n1;
          (gh, n3) = cloneGameHistoryObj (gameHistoryObj s) n2;
          snapshot = \<lparr>roundDataObj = rd, playersObj = ps,
                      currentRoundObj = currentRoundObj s,
                      roundPhaseObj = roundPhaseObj s,
                      gameHistoryObj = gh\<rparr>
      in s\<lparr>phaseHistoryObj := pushSnapshot (phaseHistoryObj s) snapshot, nextAddr := n3\<rparr>)"

definition performUndoObj :: "SessionObj \<Rightarrow> SessionObj" where
  "performUndoObj s =
     (case popSnapshot (phaseHistoryObj s) of
        None \<Rightarrow> s
      | Some (snapshot, newHistory) \<Rightarrow>
          let (rd, n1) = cloneRecordObj (roundDataObj snapshot) (nextAddr s);
              (ps, n2) = clonePlayersObj (playersObj snapshot) n1;
              (gh, n3) = cloneGameHistoryObj (gameHistoryObj snapshot) n2
          in s\<lparr>phaseHistoryObj := newHistory,
               roundDataObj := rd,
               playersObj := ps,
               currentRoundObj := currentRoundObj snapshot,
               roundPhaseObj := roundPhaseObj snapshot,
               gameHistoryObj := gh,
               nextAddr := n3\<rparr>)"

text \<open>The addresses of the objects of a collection, and of the three collections.\<close>

definition recordAddrs :: "'v RecordObj \<Rightarrow> addr set" where
  "recordAddrs obj = insert (fst obj) (set (map (\<lambda>(k, v). fst v) (snd obj)))"

definition playersAddrs :: "Player ref list ref \<Rightarrow> addr set" where
  "playersAddrs ps = insert (fst ps) (set (map fst (snd ps)))"

definition entryAddrs :: "EntryObj \<Rightarrow> addr set" where
  "entryAddrs entry = insert (fst entry) (recordAddrs (snd (snd entry)))"

definition historyAddrs :: "EntryObj list ref \<Rightarrow> addr set" where
  "historyAddrs h = insert (fst h) (\<Union> (set (map entryAddrs (snd h))))"

definition collectionAddrs :: "'a SnapshotObj_scheme \<Rightarrow> addr set" where
  "collectionAddrs sn =
     recordAddrs (roundDataObj sn) \<union> playersAddrs (playersObj sn) \<union> historyAddrs (gameHistoryObj sn)"

text \<open>Every object of the live state and of the log came from the allocator.\<close>

definition allocated :: "SessionObj \<Rightarrow> bool" where
  "allocated s =
     (\<forall>a \<in> collectionAddrs s \<union> \<Union> (set (map collectionAddrs (phaseHistoryObj s))). a < nextAddr s)"

text \<open>Forgetting the addresses gives the values of the first model.\<close>

definition recordValue :: "'v RecordObj \<Rightarrow> 'v Record" where
  "recordValue obj = map (\<lambda>(k, v). (k, snd v)) (snd obj)"

definition playersValue :: "Player ref list ref \<Rightarrow> Player list" where
  "playersValue ps = map snd (snd ps)"

definition entryValue :: "EntryObj \<Rightarrow> GameHistoryEntry" where
  "entryValue entry = \<lparr>round = fst (snd entry), scores = recordValue (snd (snd entry))\<rparr>"

definition historyValue :: "EntryObj list ref \<Rightarrow> GameHistoryEntry list" where
  "historyValue h = map entryValue (snd h)"

definition snapshotValue :: "'a SnapshotObj_scheme \<Rightarrow> PhaseSnapshot" where
  "snapshotValue sn =
     \<lparr>roundData = recordValue (roundDataObj sn),
      players = playersValue (playersObj sn),
      currentRound = currentRoundObj sn,
      roundPhase = roundPhaseObj sn,
      gameHistory = historyValue (gameHistoryObj sn)\<rparr>"

definition sessionValue :: "SessionObj \<Rightarrow> Session" where
  "sessionValue s =
     \<lparr>roundData = recordValue (roundDataObj s),
      players = playersValue (playersObj s),
      currentRound = currentRoundObj s,
      roundPhase = roundPhaseObj s,
      gameHistory = historyValue (gameHistoryObj s),
      gameStarted = gameStartedObj s,
      phaseHistory = map snapshotValue (phaseHistoryObj s)\<rparr>"

section \<open>Sessions the view can reach\<close>

text \<open>The defaults of the persisted fields (lines 85-92).\<close>

definition initialSession :: Session where
  "initialSession =
     \<lparr>roundData = [], players = [], currentRound = 1, roundPhase = Bidding,
      gameHistory = [], gameStarted = False, phaseHistory = []\<rparr>"

text \<open>The controls of the four screens, with the arguments their handlers pass.\<close>

datatype Action =
    AddPlayer string
  | RemovePlayer nat
  | ClearPlayers bool
  | StartGame
  | SetBid nat int
  | UpdateTricks nat int
  | UpdatePiratesCapture nat int
  | ToggleSkullKingCapture nat
  | ConfirmBids
  | FinishRound
  | PerformUndo
  | EndGameEarly bool
  | ResetGame

fun perform :: "Action \<Rightarrow> Session \<Rightarrow> Session" where
  "perform (AddPlayer playerName) s = addPlayer playerName s"
| "perform (RemovePlayer index) s = removePlayer index s"
| "perform (ClearPlayers confirmed) s = clearPlayers confirmed s"
| "perform StartGame s = startGame s"
| "perform (SetBid i num) s = setBid i num s"
| "perform (UpdateTricks i delta) s = updateTricks i delta s"
| "perform (UpdatePiratesCapture i delta) s = updatePiratesCapture i delta s"
| "perform (ToggleSkullKingCapture i) s = toggleSkullKingCapture i s"
| "perform ConfirmBids s = confirmBids s"
| "perform FinishRound s = snd (finishRound s)"
| "perform PerformUndo s = performUndo s"
| "perform (EndGameEarly confirmed) s = endGameEarly confirmed s"
| "perform ResetGame s = resetGame s"

text \<open>
  The component renders the setup screen when \<open>gameStarted\<close> is false, else the final
  standings when the phase is \<open>complete\<close>, else the bidding screen, else the scoring
  screen (lines 352-650). \<open>offered a s\<close> says that the screen of \<open>s\<close> shows the control of
  \<open>a\<close>: per-player controls exist for the indices of \<open>players\<close>, bid buttons for
  \<open>0..currentRound\<close>, steppers step by one, the undo button needs a non-empty log. The
  conditions under which the view hides or disables a control of the scoring screen
  (a stepper at its bound, the bonus section, the history view) are left out, which
  only enlarges the set of reachable sessions.
\<close>

fun offered :: "Action \<Rightarrow> Session \<Rightarrow> bool" where
  "offered (AddPlayer playerName) s = (\<not> gameStarted s)"
| "offered (RemovePlayer index) s = (\<not> gameStarted s \<and> index < length (players s))"
| "offered (ClearPlayers confirmed) s = (\<not> gameStarted s \<and> length (players s) > 0)"
| "offered StartGame s = (\<not> gameStarted s \<and> length (players s) \<ge> 2)"
| "offered ResetGame s = (gameStarted s \<and> roundPhase s = Complete)"
| "offered (SetBid i num) s =
     (gameStarted s \<and> roundPhase s \<noteq> Complete \<and> i < length (players s)
      \<and> 0 \<le> num \<and> num \<le> currentRound s)"
| "offered ConfirmBids s = (gameStarted s \<and> roundPhase s = Bidding)"
| "offered (UpdateTricks i delta) s =
     (gameStarted s \<and> roundPhase s = Scoring \<and> i < length (players s)
      \<and> (delta = - 1 \<or> delta = 1))"
| "offered (UpdatePiratesCapture i delta) s =
     (gameStarted s \<and> roundPhase s = Scoring \<and> i < length (players s)
      \<and> (delta = - 1 \<or> delta = 1))"
| "offered (ToggleSkullKingCapture i) s =
     (gameStarted s \<and> roundPhase s = Scoring \<and> i < length (players s))"
| "offered FinishRound s = (gameStarted s \<and> roundPhase s = Scoring)"
| "offered PerformUndo s =
     (gameStarted s \<and> roundPhase s \<noteq> Complete \<and> length (phaseHistory s) > 0)"
| "offered (EndGameEarly confirmed) s = (gameStarted s \<and> roundPhase s \<noteq> Complete)"

inductive reachable :: "Session \<Rightarrow> bool" where
  initial: "reachable initialSession"
| step: "reachable s \<Longrightarrow> offered a s \<Longrightarrow> reachable (perform a s)"

text \<open>Running a list of actions, for concrete traces.\<close>

fun run :: "Action list \<Rightarrow> Session \<Rightarrow> Session" where
  "run [] s = s"
| "run (a # as) s = run as (perform a s)"

fun offered_all :: "Action list \<Rightarrow> Session \<Rightarrow> bool" where
  "offered_all [] s = True"
| "offered_all (a # as) s = (offered a s \<and> offered_all as (perform a s))"

section \<open>Invariants\<close>

text \<open>A record enumerates its keys in strictly ascending order.\<close>

definition ascending :: "'v Record \<Rightarrow> bool" where
  "ascending obj = sorted_wrt (<) (map fst obj)"

definition records_ascending :: "Session \<Rightarrow> bool" where
  "records_ascending s =
     (ascending (roundData s) \<and> list_all (\<lambda>entry. ascending (scores entry)) (gameHistory s))"

text \<open>No two entries of a history are for the same round.\<close>

definition one_entry_per_round :: "GameHistoryEntry list \<Rightarrow> bool" where
  "one_entry_per_round h = distinct (map round h)"

definition histories_unique :: "Session \<Rightarrow> bool" where
  "histories_unique s =
     (one_entry_per_round (gameHistory s)
      \<and> list_all (\<lambda>snapshot. one_entry_per_round (gameHistory snapshot)) (phaseHistory s))"

text \<open>
  The number of snapshots under a session of round \<open>r\<close> in a phase: two per finished
  round, one more once the bids are confirmed.
\<close>

fun slotBound :: "int \<Rightarrow> RoundPhase \<Rightarrow> int" where
  "slotBound r Bidding = 2 * (r - 1)"
| "slotBound r Scoring = 2 * r - 1"
| "slotBound r Complete = 19"

definition log_bounded :: "Session \<Rightarrow> bool" where
  "log_bounded s =
     (1 \<le> currentRound s \<and> currentRound s \<le> 10
      \<and> int (length (phaseHistory s)) \<le> slotBound (currentRound s) (roundPhase s)
      \<and> (\<forall>k < length (phaseHistory s).
            1 \<le> currentRound (phaseHistory s ! k) \<and> currentRound (phaseHistory s ! k) \<le> 10
            \<and> int k \<le> slotBound (currentRound (phaseHistory s ! k)) (roundPhase (phaseHistory s ! k)))
      \<and> (\<not> gameStarted s \<longrightarrow> currentRound s = 1 \<and> roundPhase s = Bidding))"

text \<open>
  Every total is the sum of the player's scores over the history, in the live state and
  in what each snapshot restores; before the game starts the history is empty.
\<close>

definition totals_match :: "Player list \<Rightarrow> GameHistoryEntry list \<Rightarrow> bool" where
  "totals_match ps h =
     (\<forall>i < length ps. totalScore (ps ! i) = sum_list (map (\<lambda>entry. scoreOrZero entry i) h))"

definition totals_consistent :: "Session \<Rightarrow> bool" where
  "totals_consistent s =
     (totals_match (players s) (gameHistory s)
      \<and> list_all (\<lambda>snapshot. totals_match (players snapshot)
                               (cloneGameHistory (gameHistory snapshot))) (phaseHistory s)
      \<and> (\<not> gameStarted s \<longrightarrow> gameHistory s = []))"

section \<open>Concrete sessions\<close>

text \<open>Two players at the start of round 1.\<close>

definition startedSession :: Session where
  "startedSession = run [AddPlayer ''Anne'', AddPlayer ''Bob'', StartGame] initialSession"

text \<open>
  Round 1 finished, undone, and the tricks corrected: the session is back in the scoring
  phase of round 1 with the first finalisation still in its totals and its history.
\<close>

definition replayTrace :: "Action list" where
  "replayTrace =
     [AddPlayer ''Anne'', AddPlayer ''Bob'', StartGame,
      SetBid 1 1, ConfirmBids, UpdateTricks 1 1, FinishRound,
      PerformUndo, UpdateTricks 1 (- 1), UpdateTricks 0 1]"

definition replaySession :: Session where
  "replaySession = run replayTrace initialSession"



text \<open>The replayed session with addresses for its objects.\<close>

definition replaySessionObj :: SessionObj where
  "replaySessionObj =
     \<lparr>roundDataObj =
        (2, [(0, (0, Typed \<lparr>bid = 0, tricks = 1, piratesCapture = 0, skullKingCapture = False\<rparr>)),
             (1, (1, Typed \<lparr>bid = 1, tricks = 0, piratesCapture = 0, skullKingCapture = False\<rparr>))]),
      playersObj =
        (5, [(3, \<lparr>name = ''Anne'', totalScore = 10\<rparr>), (4, \<lparr>name = ''Bob'', totalScore = 20\<rparr>)]),
      currentRoundObj = 1,
      roundPhaseObj = Scoring,
      gameHistoryObj =
        (10, [(9, (1, (8, [(0, (6, \<lparr>bid = 0, tricks = 0, piratesCapture = 0,
                                     skullKingCapture = False, score = 10\<rparr>)),
                           (1, (7, \<lparr>bid = 1, tricks = 1, piratesCapture = 0,
                                     skullKingCapture = False, score = 20\<rparr>))])))]),
      gameStartedObj = True,
      phaseHistoryObj =
        [\<lparr>roundDataObj =
            (13, [(0, (11, Typed \<lparr>bid = 0, tricks = 0, piratesCapture = 0, skullKingCapture = False\<rparr>)),
                  (1, (12, Typed \<lparr>bid = 1, tricks = 0, piratesCapture = 0, skullKingCapture = False\<rparr>))]),
          playersObj =
            (16, [(14, \<lparr>name = ''Anne'', totalScore = 0\<rparr>), (15, \<lparr>name = ''Bob'', totalScore = 0\<rparr>)]),
          currentRoundObj = 1,
          roundPhaseObj = Bidding,
          gameHistoryObj = (17, [])\<rparr>],
      nextAddr = 18\<rparr>"

text \<open>A snapshot that is recognised by its round number.\<close>

definition numbered :: "int \<Rightarrow> PhaseSnapshot" where
  "numbered n = \<lparr>roundData = [], players = [], currentRound = n, roundPhase = Bidding, gameHistory = []\<rparr>"

declare popAll.simps [simp del]

section \<open>Lemmas on records\<close>

lemma keys_rec_set: "fst ` set (rec_set k v obj) = insert k (fst ` set obj)"
proof (induction obj)
  case Nil
  show ?case by simp
next
  case (Cons kv obj)
  obtain k' v' where kv: "kv = (k', v')" by (cases kv)
  show ?case using Cons.IH by (simp add: kv insert_commute)
qed

lemma rec_set_ascending: "ascending obj \<Longrightarrow> ascending (rec_set k v obj)"
proof (induction obj)
  case Nil
  then show ?case by (simp add: ascending_def)
next
  case (Cons kv obj)
  obtain k' v' where kv: "kv = (k', v')" by (cases kv)
  from Cons.prems have tail: "ascending obj" and low: "\<forall>x \<in> fst ` set obj. k' < x"
    by (auto simp: ascending_def kv)
  show ?case
  proof (cases "k < k'")
    case True
    with Cons.prems show ?thesis by (auto simp: ascending_def kv)
  next
    case False
    show ?thesis
    proof (cases "k = k'")
      case True
      with Cons.prems show ?thesis by (auto simp: ascending_def kv)
    next
      case False
      with \<open>\<not> k < k'\<close> have "k' < k" by simp
      moreover from Cons.IH tail have "ascending (rec_set k v obj)" .
      moreover have "fst ` set (rec_set k v obj) = insert k (fst ` set obj)"
        by (rule keys_rec_set)
      ultimately show ?thesis using low False \<open>\<not> k < k'\<close>
        by (auto simp: ascending_def kv)
    qed
  qed
qed

lemma rec_set_above: "\<forall>x \<in> set obj. fst x < k \<Longrightarrow> rec_set k v obj = obj @ [(k, v)]"
  by (induction obj) auto

lemma foldl_rec_set_ascending:
  "ascending acc \<Longrightarrow> ascending (foldl (\<lambda>obj (k, v). rec_set k v obj) acc kvs)"
  by (induction kvs arbitrary: acc) (auto simp: rec_set_ascending)

lemma fromEntries_ascending: "ascending (fromEntries kvs)"
  unfolding fromEntries_def by (rule foldl_rec_set_ascending) (simp add: ascending_def)

lemma foldl_rec_set_append:
  "sorted_wrt (<) (map fst (acc @ kvs)) \<Longrightarrow>
   foldl (\<lambda>obj (k, v). rec_set k v obj) acc kvs = acc @ kvs"
proof (induction kvs arbitrary: acc)
  case Nil
  then show ?case by simp
next
  case (Cons kv kvs)
  obtain k v where kv: "kv = (k, v)" by (cases kv)
  from Cons.prems have "\<forall>x \<in> set acc. fst x < k"
    by (auto simp: kv sorted_wrt_append)
  then have "rec_set k v acc = acc @ [(k, v)]" by (rule rec_set_above)
  moreover from Cons.prems have "sorted_wrt (<) (map fst ((acc @ [(k, v)]) @ kvs))"
    by (simp add: kv)
  ultimately show ?case using Cons.IH [of "acc @ [(k, v)]"] by (simp add: kv)
qed

lemma fromEntries_id: "ascending kvs \<Longrightarrow> fromEntries kvs = kvs"
  unfolding fromEntries_def ascending_def using foldl_rec_set_append [of "[]" kvs] by simp

lemma cloneRecord_id: "ascending obj \<Longrightarrow> cloneRecord obj = obj"
  by (simp add: cloneRecord_def entries_def fromEntries_id)

lemma cloneRecord_ascending: "ascending (cloneRecord obj)"
  by (simp add: cloneRecord_def fromEntries_ascending)

lemma clonePlayers_id: "clonePlayers ps = ps"
  by (simp add: clonePlayers_def)

lemma initialRoundData_eq:
  "initialRoundData ps = map (\<lambda>i. (i, Typed emptyRoundData)) [0..<length ps]"
proof -
  have "foldl (\<lambda>obj i. rec_set i (Typed emptyRoundData) obj) [] [0..<n]
          = map (\<lambda>i. (i, Typed emptyRoundData)) [0..<n]" for n
  proof (induction n)
    case 0
    show ?case by simp
  next
    case (Suc n)
    have "rec_set n (Typed emptyRoundData) (map (\<lambda>i. (i, Typed emptyRoundData)) [0..<n])
            = map (\<lambda>i. (i, Typed emptyRoundData)) [0..<n] @ [(n, Typed emptyRoundData)]"
      by (rule rec_set_above) auto
    with Suc show ?case by simp
  qed
  then show ?thesis by (simp add: initialRoundData_def)
qed

lemma initialRoundData_ascending: "ascending (initialRoundData ps)"
  by (simp add: initialRoundData_eq ascending_def comp_def sorted_wrt_map)

section \<open>Evaluating the operations\<close>

lemmas op_defs = addPlayer_def removePlayer_def clearPlayers_def startGame_def setBid_def
  updateTricks_def updatePiratesCapture_def toggleSkullKingCapture_def confirmBids_def
  finishRound_def finishRows_def existingRoundIndex_def previousRounds_def
  updatedHistory_def performUndo_def endGameEarly_def resetGame_def savePhaseSnapshot_def
  initialSession_def trim_def is_space_def initialRoundData_def lookup_def
  pushSnapshot_def popSnapshot_def cloneRecord_def clonePlayers_def cloneGameHistory_def
  entries_def fromEntries_def values_of_def typedRecord_def sumTricks_def finishPlayer_def
  calculateScore_def scoreOrZero_def emptyRoundData_def enumerate_eq_zip

lemma reachable_run: "reachable s \<Longrightarrow> offered_all as s \<Longrightarrow> reachable (run as s)"
  by (induction as arbitrary: s) (auto intro: reachable.step)

lemma startedSession_eq: "startedSession =
  \<lparr>roundData = [(0, Typed emptyRoundData), (1, Typed emptyRoundData)],
   players = [\<lparr>name = ''Anne'', totalScore = 0\<rparr>, \<lparr>name = ''Bob'', totalScore = 0\<rparr>],
   currentRound = 1, roundPhase = Bidding, gameHistory = [], gameStarted = True, phaseHistory = []\<rparr>"
  by (simp add: startedSession_def op_defs Let_def upt_rec)

lemma startedSession_reachable: "reachable startedSession"
  unfolding startedSession_def
  by (rule reachable_run [OF reachable.initial]) (simp add: op_defs Let_def upt_rec)

lemma replaySession_reachable: "reachable replaySession"
  unfolding replaySession_def replayTrace_def
  by (rule reachable_run [OF reachable.initial]) (simp add: op_defs Let_def upt_rec)

section \<open>Properties of the scoring engine\<close>

text \<open>
  C1. For integer inputs with bid and tricks in \<open>[0, currentRound]\<close> and piratesCapture in
  \<open>[0, 5]\<close>, the score is \<open>10 * currentRound\<close> when bid and tricks are both 0,
  \<open>- 10 * currentRound\<close> when bid is 0 and tricks is positive,
  \<open>20 * tricks + 30 * piratesCapture\<close> plus 50 if the Skull King was captured when a
  positive bid is met exactly, and \<open>- 10 * |bid - tricks|\<close> when a positive bid is missed.
\<close>

theorem calculateScore_rules:
  assumes "0 \<le> b" "b \<le> r" "0 \<le> t" "t \<le> r" "0 \<le> p" "p \<le> 5"
  shows "calculateScore r \<lparr>bid = b, tricks = t, piratesCapture = p, skullKingCapture = k\<rparr> =
           (if b = 0 \<and> t = 0 then 10 * r
            else if b = 0 \<and> t > 0 then - 10 * r
            else if b > 0 \<and> b = t then 20 * t + 30 * p + (if k then 50 else 0)
            else - 10 * \<bar>b - t\<bar>)"
  using assms by (auto simp: calculateScore_def Let_def)

theorem calculateScore_rules_witness:
  "(0::int) \<le> 2 \<and> (2::int) \<le> 5 \<and> (0::int) \<le> 5 \<and>
   calculateScore 5 \<lparr>bid = 2, tricks = 2, piratesCapture = 1, skullKingCapture = True\<rparr> = 120"
  using calculateScore_rules [of 2 5 2 1 True] by simp


section \<open>Validation and reset\<close>

text \<open>
  C2. If the tricks recorded in \<open>roundData\<close> do not sum to \<open>currentRound\<close> (a sum that is
  \<open>NaN\<close> included), \<open>finishRound\<close> signals the validation failure and returns the
  session it was given, players, history, round data, round, phase and undo log alike;
  so does any number of repeated calls. The phase plays no part: the code does not
  read it.
\<close>

theorem finishRound_mismatch:
  assumes "totalTricks (roundData s) \<noteq> Some (currentRound s)"
  shows "finishRound s = (ValidationFailure, s) \<and> ((\<lambda>s. snd (finishRound s)) ^^ n) s = s"
proof -
  from assms have first: "finishRound s = (ValidationFailure, s)"
    by (auto simp: finishRound_def totalTricks_def split: option.splits)
  then have "((\<lambda>s. snd (finishRound s)) ^^ n) s = s"
    by (induction n) simp_all
  with first show ?thesis by simp
qed

theorem finishRound_mismatch_witness:
  "totalTricks (roundData (confirmBids startedSession)) = Some 0
   \<and> currentRound (confirmBids startedSession) = 1
   \<and> roundPhase (confirmBids startedSession) = Scoring
   \<and> finishRound (confirmBids startedSession) = (ValidationFailure, confirmBids startedSession)
   \<and> ((\<lambda>s. snd (finishRound s)) ^^ 3) (confirmBids startedSession) = confirmBids startedSession"
proof -
  have t: "totalTricks (roundData (confirmBids startedSession)) = Some 0"
    and c: "currentRound (confirmBids startedSession) = 1"
    and p: "roundPhase (confirmBids startedSession) = Scoring"
    by (simp_all add: startedSession_eq totalTricks_def op_defs)
  then have "totalTricks (roundData (confirmBids startedSession))
      \<noteq> Some (currentRound (confirmBids startedSession))" by simp
  from finishRound_mismatch [OF this, of 3] t c p show ?thesis by simp
qed

text \<open>
  C10. \<open>resetGame\<close> keeps the players in number, order and name and sets every total to
  0; it sets \<open>gameStarted\<close> to false, the round to 1, the phase to bidding, and empties
  the round data, the history and the undo log.
\<close>

theorem resetGame_frame:
  "length (players (resetGame s)) = length (players s)
   \<and> map name (players (resetGame s)) = map name (players s)
   \<and> map totalScore (players (resetGame s)) = replicate (length (players s)) 0
   \<and> \<not> gameStarted (resetGame s)
   \<and> currentRound (resetGame s) = 1
   \<and> roundPhase (resetGame s) = Bidding
   \<and> roundData (resetGame s) = []
   \<and> gameHistory (resetGame s) = []
   \<and> phaseHistory (resetGame s) = []"
  by (simp add: resetGame_def comp_def map_replicate_const)

section \<open>The bounded log\<close>

lemma popAll_Nil: "popAll [] = []"
  by (simp add: popAll.simps popSnapshot_def)

lemma popAll_snoc: "popAll (history @ [snapshot]) = snapshot # popAll history"
  by (simp add: popAll.simps [of "history @ [snapshot]"] popSnapshot_def)

lemma popAll_rev: "popAll history = rev history"
  by (induction history rule: rev_induct) (simp_all add: popAll_Nil popAll_snoc)

lemma pushSnapshot_drop:
  "pushSnapshot history snapshot = drop (length history + 1 - 20) (history @ [snapshot])"
  if "length history \<le> 20"
proof (cases "length history = 20")
  case True
  have "tl (history @ [snapshot]) = drop 1 (history @ [snapshot])"
    by (cases history) simp_all
  with True show ?thesis by (simp add: pushSnapshot_def Let_def)
next
  case False
  with that show ?thesis by (simp add: pushSnapshot_def Let_def)
qed

lemma length_pushSnapshot: "length history \<le> 20 \<Longrightarrow> length (pushSnapshot history snapshot) \<le> 20"
  by (simp add: pushSnapshot_def Let_def)

lemma foldl_pushSnapshot:
  "length history \<le> 20 \<Longrightarrow>
   foldl pushSnapshot history snaps
     = drop (length (history @ snaps) - 20) (history @ snaps)
   \<and> length (foldl pushSnapshot history snaps) \<le> 20"
proof (induction snaps rule: rev_induct)
  case Nil
  then show ?case by simp
next
  case (snoc y ys)
  let ?L = "foldl pushSnapshot history ys"
  from snoc have L: "?L = drop (length (history @ ys) - 20) (history @ ys)"
    and len: "length ?L \<le> 20" by simp_all
  have step: "foldl pushSnapshot history (ys @ [y]) = pushSnapshot ?L y" by simp
  have "pushSnapshot ?L y = drop (length ?L + 1 - 20) (?L @ [y])"
    using len by (rule pushSnapshot_drop)
  also have "\<dots> = drop (length (history @ ys @ [y]) - 20) (history @ ys @ [y])"
  proof -
    define zs where "zs = history @ ys"
    have Lz: "?L = drop (length zs - 20) zs" by (simp add: L zs_def)
    have "drop (length ?L + 1 - 20) (?L @ [y]) = drop (length (zs @ [y]) - 20) (zs @ [y])"
    proof (cases "length zs \<ge> 20")
      case True
      have "?L @ [y] = drop (length zs - 20) (zs @ [y])" by (simp add: Lz)
      moreover from True have "length ?L = 20" by (simp add: Lz)
      ultimately have "drop (length ?L + 1 - 20) (?L @ [y])
           = drop 1 (drop (length zs - 20) (zs @ [y]))" by simp
      also have "\<dots> = drop (1 + (length zs - 20)) (zs @ [y])" by (simp only: drop_drop)
      also from True have "1 + (length zs - 20) = length (zs @ [y]) - 20" by simp
      finally show ?thesis .
    next
      case False
      then show ?thesis by (simp add: Lz)
    qed
    then show ?thesis by (simp add: zs_def)
  qed
  finally have "pushSnapshot ?L y = drop (length (history @ ys @ [y]) - 20) (history @ ys @ [y])" .
  moreover have "length (pushSnapshot ?L y) \<le> 20" using len by (rule length_pushSnapshot)
  ultimately show ?case using step by simp
qed

text \<open>
  C5. Pushing any sequence of snapshots onto a log of at most 20 leaves a log of at
  most 20 that holds the most recent snapshots: popping until it is empty returns the
  last 20 of all snapshots, most recent first. After 25 pushes onto the empty log the
  pops return exactly the last 20 and none of the first 5 positions.
\<close>

theorem undo_log_capacity:
  assumes "length history \<le> 20"
  shows "length (foldl pushSnapshot history snaps) \<le> 20
         \<and> popAll (foldl pushSnapshot history snaps)
             = rev (drop (length (history @ snaps) - 20) (history @ snaps))
         \<and> (history = [] \<and> length snaps = 25 \<longrightarrow>
              length (foldl pushSnapshot history snaps) = 20
              \<and> popAll (foldl pushSnapshot history snaps) = rev (drop 5 snaps))"
proof -
  from assms have eq: "foldl pushSnapshot history snaps
       = drop (length (history @ snaps) - 20) (history @ snaps)"
    and len: "length (foldl pushSnapshot history snaps) \<le> 20"
    using foldl_pushSnapshot by blast+
  have pops: "popAll (foldl pushSnapshot history snaps)
       = rev (drop (length (history @ snaps) - 20) (history @ snaps))"
    by (simp only: popAll_rev eq)
  have "length (foldl pushSnapshot history snaps) = 20
        \<and> popAll (foldl pushSnapshot history snaps) = rev (drop 5 snaps)"
    if "history = []" "length snaps = 25"
    using that pops eq by simp
  with len pops show ?thesis by blast
qed

theorem undo_log_capacity_witness:
  "length ([] :: PhaseSnapshot list) \<le> 20
   \<and> length (map numbered [1..25]) = 25
   \<and> popAll (foldl pushSnapshot [] (map numbered [1..25])) = rev (map numbered [6..25])"
proof -
  have d: "drop 5 (map numbered [1..25]) = map numbered [6..25]"
    by (simp add: upto.simps)
  have l: "length (map numbered [1..25]) = 25" by simp
  from undo_log_capacity [of "[]" "map numbered [1..25]"] l d show ?thesis by simp
qed

section \<open>What a finished round changes\<close>

lemma those_eq_Some: "those xs = Some ys \<longleftrightarrow> xs = map Some ys"
  by (induction xs arbitrary: ys) (auto split: option.splits)

lemma finishRound_unfinished:
  "fst (finishRound s) \<noteq> Finished \<Longrightarrow> snd (finishRound s) = s"
  by (auto simp: finishRound_def Let_def split: option.splits if_splits)

lemma finishRound_Finished:
  assumes "finishRound s = (Finished, s')"
  obtains rd rows where
    "typedRecord (roundData s) = Some rd"
    "sumTricks rd = currentRound s"
    "finishRows s rd = Some rows"
    "gameHistory s' = updatedHistory s (fromEntries (map fst rows))"
    "players s' = map snd rows"
    "gameStarted s' = gameStarted s"
    "currentRound s < 10 \<Longrightarrow>
       phaseHistory s' = pushSnapshot (phaseHistory s)
          \<lparr>roundData = cloneRecord (roundData s),
           players = clonePlayers (map snd rows),
           currentRound = currentRound s,
           roundPhase = Scoring,
           gameHistory = cloneGameHistory (updatedHistory s (fromEntries (map fst rows)))\<rparr>
       \<and> roundData s' = initialRoundData (map snd rows)
       \<and> currentRound s' = currentRound s + 1 \<and> roundPhase s' = Bidding"
    "\<not> currentRound s < 10 \<Longrightarrow>
       phaseHistory s' = phaseHistory s \<and> roundData s' = roundData s
       \<and> currentRound s' = currentRound s \<and> roundPhase s' = Complete"
proof -
  from assms obtain rd where rd: "typedRecord (roundData s) = Some rd"
    by (auto simp: finishRound_def split: option.splits)
  with assms have sum: "sumTricks rd = currentRound s"
    by (auto simp: finishRound_def split: if_splits)
  with assms rd obtain rows where rows: "finishRows s rd = Some rows"
    by (auto simp: finishRound_def split: option.splits)
  show thesis
  proof (cases "currentRound s < 10")
    case True
    with assms rd sum rows have "s' = s\<lparr>gameHistory := updatedHistory s (fromEntries (map fst rows)),
        players := map snd rows,
        phaseHistory := pushSnapshot (phaseHistory s)
          \<lparr>roundData = cloneRecord (roundData s),
           players = clonePlayers (map snd rows),
           currentRound = currentRound s,
           roundPhase = Scoring,
           gameHistory = cloneGameHistory (updatedHistory s (fromEntries (map fst rows)))\<rparr>,
        roundData := initialRoundData (map snd rows),
        currentRound := currentRound s + 1,
        roundPhase := Bidding\<rparr>"
      by (simp add: finishRound_def Let_def)
    with True show thesis by (intro that [OF rd sum rows]) simp_all
  next
    case False
    with assms rd sum rows have "s' = s\<lparr>gameHistory := updatedHistory s (fromEntries (map fst rows)),
        players := map snd rows, roundPhase := Complete\<rparr>"
      by (simp add: finishRound_def Let_def)
    with False show thesis by (intro that [OF rd sum rows]) simp_all
  qed
qed

lemma finishRows_nth:
  assumes "finishRows s rd = Some rows"
  shows "length rows = length (players s)"
    and "i < length (players s) \<Longrightarrow>
           finishPlayer (currentRound s) (previousRounds s) rd i (players s ! i) = Some (rows ! i)"
proof -
  let ?f = "\<lambda>(i, player). finishPlayer (currentRound s) (previousRounds s) rd i player"
  from assms have eq: "map ?f (enumerate 0 (players s)) = map Some rows"
    by (simp add: finishRows_def those_eq_Some)
  then have "length (map ?f (enumerate 0 (players s))) = length (map Some rows)" by simp
  then show len: "length rows = length (players s)" by simp
  assume i: "i < length (players s)"
  from eq have "map ?f (enumerate 0 (players s)) ! i = map Some rows ! i" by simp
  with i len show "finishPlayer (currentRound s) (previousRounds s) rd i (players s ! i) = Some (rows ! i)"
    by (simp add: nth_enumerate_eq)
qed

lemma finishRows_row:
  assumes "finishRows s rd = Some rows" "i < length (players s)"
  obtains data where "lookup rd i = Some data"
    "rows ! i = ((i, \<lparr>bid = bid data, tricks = tricks data,
                      piratesCapture = piratesCapture data,
                      skullKingCapture = skullKingCapture data,
                      score = calculateScore (currentRound s) data\<rparr>),
                 (players s ! i)\<lparr>totalScore :=
                    foldl (\<lambda>sum entry. sum + scoreOrZero entry i) 0 (previousRounds s)
                    + calculateScore (currentRound s) data\<rparr>)"
proof -
  have row: "finishPlayer (currentRound s) (previousRounds s) rd i (players s ! i) = Some (rows ! i)"
    by (rule finishRows_nth(2) [OF assms])
  then obtain data where data: "lookup rd i = Some data"
    by (cases "lookup rd i") (simp_all add: finishPlayer_def)
  with row have "rows ! i = ((i, \<lparr>bid = bid data, tricks = tricks data,
                      piratesCapture = piratesCapture data,
                      skullKingCapture = skullKingCapture data,
                      score = calculateScore (currentRound s) data\<rparr>),
                 (players s ! i)\<lparr>totalScore :=
                    foldl (\<lambda>sum entry. sum + scoreOrZero entry i) 0 (previousRounds s)
                    + calculateScore (currentRound s) data\<rparr>)"
    by (simp add: finishPlayer_def Let_def)
  with data show thesis by (rule that)
qed

lemma finishRows_keys:
  assumes "finishRows s rd = Some rows"
  shows "map fst (map fst rows) = [0..<length (players s)]"
proof (rule nth_equalityI)
  show "length (map fst (map fst rows)) = length [0..<length (players s)]"
    using finishRows_nth(1) [OF assms] by simp
next
  fix i assume "i < length (map fst (map fst rows))"
  then have i: "i < length (players s)" using finishRows_nth(1) [OF assms] by simp
  have "fst (fst (rows ! i)) = i" by (rule finishRows_row [OF assms i]) simp
  with i show "map fst (map fst rows) ! i = [0..<length (players s)] ! i"
    using finishRows_nth(1) [OF assms] by simp
qed

lemma finishRows_roundScores:
  assumes "finishRows s rd = Some rows"
  shows "fromEntries (map fst rows) = map fst rows" and "ascending (map fst rows)"
proof -
  show "ascending (map fst rows)"
    unfolding ascending_def finishRows_keys [OF assms] by simp
  then show "fromEntries (map fst rows) = map fst rows" by (rule fromEntries_id)
qed

lemma findIndex_Some:
  "findIndex p xs = Some i \<Longrightarrow> i < length xs \<and> p (xs ! i) \<and> (\<forall>j < i. \<not> p (xs ! j))"
proof (induction xs arbitrary: i)
  case Nil
  then show ?case by simp
next
  case (Cons x xs)
  show ?case
  proof (cases "p x")
    case True
    with Cons.prems show ?thesis by simp
  next
    case False
    with Cons.prems obtain i' where i': "findIndex p xs = Some i'" "i = Suc i'" by auto
    from Cons.IH [OF i'(1)] False i'(2) show ?thesis
      by (auto simp: nth_Cons split: nat.splits)
  qed
qed

lemma findIndex_None: "findIndex p xs = None \<longleftrightarrow> (\<forall>x \<in> set xs. \<not> p x)"
  by (induction xs) auto

lemma updatedHistory_replace:
  assumes "existingRoundIndex s = Some idx"
  shows "idx < length (gameHistory s)"
    and "round (gameHistory s ! idx) = currentRound s"
    and "updatedHistory s roundScores
           = (gameHistory s)[idx := \<lparr>round = currentRound s, scores = roundScores\<rparr>]"
proof -
  from assms have "findIndex (\<lambda>entry. round entry = currentRound s) (gameHistory s) = Some idx"
    by (simp add: existingRoundIndex_def)
  from findIndex_Some [OF this]
  show idx: "idx < length (gameHistory s)" and "round (gameHistory s ! idx) = currentRound s"
    by simp_all
  from idx assms show "updatedHistory s roundScores
           = (gameHistory s)[idx := \<lparr>round = currentRound s, scores = roundScores\<rparr>]"
    by (simp add: updatedHistory_def upd_conv_take_nth_drop)
qed

lemma updatedHistory_append:
  assumes "existingRoundIndex s = None"
  shows "currentRound s \<notin> set (map round (gameHistory s))"
    and "updatedHistory s roundScores
           = gameHistory s @ [\<lparr>round = currentRound s, scores = roundScores\<rparr>]"
proof -
  from assms have none: "findIndex (\<lambda>entry. round entry = currentRound s) (gameHistory s) = None"
    by (simp add: existingRoundIndex_def)
  then have "\<forall>x \<in> set (gameHistory s). round x \<noteq> currentRound s"
    by (simp only: findIndex_None)
  then show "currentRound s \<notin> set (map round (gameHistory s))" by auto
  from assms show "updatedHistory s roundScores
           = gameHistory s @ [\<lparr>round = currentRound s, scores = roundScores\<rparr>]"
    by (simp add: updatedHistory_def)
qed

lemma map_round_updatedHistory:
  "map round (updatedHistory s roundScores) =
     (case existingRoundIndex s of
        Some idx \<Rightarrow> map round (gameHistory s)
      | None \<Rightarrow> map round (gameHistory s) @ [currentRound s])"
proof (cases "existingRoundIndex s")
  case None
  then show ?thesis by (simp add: updatedHistory_append)
next
  case (Some idx)
  from updatedHistory_replace [OF Some]
  have "map round (updatedHistory s roundScores) = (map round (gameHistory s))[idx := currentRound s]"
    and "(map round (gameHistory s)) ! idx = currentRound s"
    by (simp_all add: map_update)
  then have "map round (updatedHistory s roundScores) = map round (gameHistory s)"
    by (metis list_update_id)
  then show ?thesis using Some by simp
qed

lemma one_entry_per_round_updatedHistory:
  "one_entry_per_round (gameHistory s) \<Longrightarrow> one_entry_per_round (updatedHistory s roundScores)"
proof (cases "existingRoundIndex s")
  case None
  assume "one_entry_per_round (gameHistory s)"
  with updatedHistory_append(1) [OF None] None show ?thesis
    by (simp add: one_entry_per_round_def map_round_updatedHistory)
next
  case (Some idx)
  assume "one_entry_per_round (gameHistory s)"
  with Some show ?thesis
    by (simp add: one_entry_per_round_def map_round_updatedHistory)
qed

lemma set_updatedHistory:
  "set (updatedHistory s roundScores)
     \<subseteq> insert \<lparr>round = currentRound s, scores = roundScores\<rparr> (set (gameHistory s))"
  by (auto simp: updatedHistory_def split: option.splits dest: in_set_takeD in_set_dropD)

lemma map_round_cloneGameHistory: "map round (cloneGameHistory h) = map round h"
  by (simp add: cloneGameHistory_def comp_def)

lemma one_entry_per_round_clone:
  "one_entry_per_round (cloneGameHistory h) = one_entry_per_round h"
  by (simp add: one_entry_per_round_def map_round_cloneGameHistory)

lemma cloneGameHistory_ascending:
  "list_all (\<lambda>entry. ascending (scores entry)) (cloneGameHistory h)"
  by (simp add: cloneGameHistory_def list_all_iff cloneRecord_ascending)

lemma cloneGameHistory_id:
  "list_all (\<lambda>entry. ascending (scores entry)) h \<Longrightarrow> cloneGameHistory h = h"
  by (simp add: cloneGameHistory_def list_all_iff cloneRecord_id map_idI)

lemma set_pushSnapshot: "set (pushSnapshot history snapshot) \<subseteq> insert snapshot (set history)"
proof -
  have "set (tl (history @ [snapshot])) \<subseteq> set (history @ [snapshot])"
    by (rule subsetI) (rule list.set_sel(2), auto)
  then show ?thesis by (auto simp: pushSnapshot_def Let_def)
qed

lemma list_all_pushSnapshot:
  "list_all P history \<Longrightarrow> P snapshot \<Longrightarrow> list_all P (pushSnapshot history snapshot)"
  using set_pushSnapshot [of history snapshot] by (auto simp: list_all_iff)

lemma popSnapshot_Some:
  "popSnapshot history = Some (snapshot, newHistory) \<Longrightarrow>
     history = newHistory @ [snapshot]"
  by (auto simp: popSnapshot_def split: if_splits)

section \<open>Invariants of the reachable sessions\<close>

subsection \<open>Ascending records\<close>

lemma finishRound_records_ascending:
  assumes "records_ascending s"
  shows "records_ascending (snd (finishRound s))"
proof (cases "fst (finishRound s) = Finished")
  case False
  with assms show ?thesis by (simp add: finishRound_unfinished)
next
  case True
  then have fin: "finishRound s = (Finished, snd (finishRound s))" by (simp add: prod_eq_iff)
  from fin show ?thesis
  proof (rule finishRound_Finished)
    fix rd and rows :: "((nat \<times> RoundScore) \<times> Player) list"
    let ?s' = "snd (finishRound s)"
    assume rows: "finishRows s rd = Some rows"
      and hist: "gameHistory ?s' = updatedHistory s (fromEntries (map fst rows))"
      and adv: "currentRound s < 10 \<Longrightarrow>
         phaseHistory ?s' = pushSnapshot (phaseHistory s)
          \<lparr>roundData = cloneRecord (roundData s),
           players = clonePlayers (map snd rows),
           currentRound = currentRound s,
           roundPhase = Scoring,
           gameHistory = cloneGameHistory (updatedHistory s (fromEntries (map fst rows)))\<rparr>
         \<and> roundData ?s' = initialRoundData (map snd rows)
         \<and> currentRound ?s' = currentRound s + 1 \<and> roundPhase ?s' = Bidding"
      and fin: "\<not> currentRound s < 10 \<Longrightarrow>
         phaseHistory ?s' = phaseHistory s \<and> roundData ?s' = roundData s
         \<and> currentRound ?s' = currentRound s \<and> roundPhase ?s' = Complete"
    have "ascending (roundData ?s')"
      using adv fin assms
      by (cases "currentRound s < 10") (simp_all add: initialRoundData_ascending records_ascending_def)
    moreover have "list_all (\<lambda>entry. ascending (scores entry)) (gameHistory ?s')"
      using set_updatedHistory [of s "fromEntries (map fst rows)"] assms
      by (auto simp: hist list_all_iff records_ascending_def fromEntries_ascending)
    ultimately show ?thesis by (simp add: records_ascending_def)
  qed
qed

lemma performUndo_records_ascending: "records_ascending (performUndo s) \<or> performUndo s = s"
  by (auto simp: performUndo_def records_ascending_def cloneRecord_ascending
      cloneGameHistory_ascending split: option.splits)

lemma perform_records_ascending:
  assumes "records_ascending s"
  shows "records_ascending (perform a s)"
proof (cases a)
  case (SetBid i num)
  with assms show ?thesis by (simp add: setBid_def records_ascending_def rec_set_ascending)
next
  case (UpdateTricks i delta)
  with assms show ?thesis
    by (simp add: updateTricks_def records_ascending_def rec_set_ascending
        split: option.splits RoundEntry.splits)
next
  case (UpdatePiratesCapture i delta)
  with assms show ?thesis
    by (simp add: updatePiratesCapture_def records_ascending_def rec_set_ascending
        split: option.splits RoundEntry.splits)
next
  case (ToggleSkullKingCapture i)
  with assms show ?thesis
    by (simp add: toggleSkullKingCapture_def records_ascending_def rec_set_ascending
        split: option.splits RoundEntry.splits)
next
  case FinishRound
  with assms show ?thesis by (simp add: finishRound_records_ascending)
next
  case PerformUndo
  with assms performUndo_records_ascending [of s] show ?thesis by auto
next
  case StartGame
  with assms show ?thesis
    by (simp add: startGame_def records_ascending_def initialRoundData_ascending)
next
  case ResetGame
  then show ?thesis by (simp add: resetGame_def records_ascending_def ascending_def)
qed (use assms in \<open>simp_all add: addPlayer_def removePlayer_def clearPlayers_def confirmBids_def
      savePhaseSnapshot_def endGameEarly_def records_ascending_def\<close>)

lemma reachable_records_ascending: "reachable s \<Longrightarrow> records_ascending s"
proof (induction rule: reachable.induct)
  case initial
  show ?case by (simp add: initialSession_def records_ascending_def ascending_def)
next
  case (step s a)
  then show ?case by (simp add: perform_records_ascending)
qed

subsection \<open>One history entry per round\<close>

lemma finishRound_histories_unique:
  assumes "histories_unique s"
  shows "histories_unique (snd (finishRound s))"
proof (cases "fst (finishRound s) = Finished")
  case False
  with assms show ?thesis by (simp add: finishRound_unfinished)
next
  case True
  then have fin: "finishRound s = (Finished, snd (finishRound s))" by (simp add: prod_eq_iff)
  from fin show ?thesis
  proof (rule finishRound_Finished)
    fix rd and rows :: "((nat \<times> RoundScore) \<times> Player) list"
    let ?s' = "snd (finishRound s)"
    let ?h = "updatedHistory s (fromEntries (map fst rows))"
    assume hist: "gameHistory ?s' = ?h"
      and adv: "currentRound s < 10 \<Longrightarrow>
         phaseHistory ?s' = pushSnapshot (phaseHistory s)
          \<lparr>roundData = cloneRecord (roundData s),
           players = clonePlayers (map snd rows),
           currentRound = currentRound s,
           roundPhase = Scoring,
           gameHistory = cloneGameHistory ?h\<rparr>
         \<and> roundData ?s' = initialRoundData (map snd rows)
         \<and> currentRound ?s' = currentRound s + 1 \<and> roundPhase ?s' = Bidding"
      and fin: "\<not> currentRound s < 10 \<Longrightarrow>
         phaseHistory ?s' = phaseHistory s \<and> roundData ?s' = roundData s
         \<and> currentRound ?s' = currentRound s \<and> roundPhase ?s' = Complete"
    from assms have h: "one_entry_per_round ?h"
      by (simp add: histories_unique_def one_entry_per_round_updatedHistory)
    have "list_all (\<lambda>snapshot. one_entry_per_round (gameHistory snapshot)) (phaseHistory ?s')"
    proof (cases "currentRound s < 10")
      case True
      with adv h assms show ?thesis
        by (simp add: histories_unique_def list_all_pushSnapshot one_entry_per_round_clone)
    next
      case False
      with fin assms show ?thesis by (simp add: histories_unique_def)
    qed
    with h hist show ?thesis by (simp add: histories_unique_def)
  qed
qed

lemma savePhaseSnapshot_histories_unique:
  "histories_unique s \<Longrightarrow> histories_unique (savePhaseSnapshot s)"
  by (simp add: savePhaseSnapshot_def histories_unique_def list_all_pushSnapshot
      one_entry_per_round_clone)

lemma performUndo_histories_unique:
  "histories_unique s \<Longrightarrow> histories_unique (performUndo s)"
  by (auto simp: performUndo_def histories_unique_def one_entry_per_round_clone
      dest!: popSnapshot_Some split: option.splits)

lemma perform_histories_unique:
  assumes "histories_unique s"
  shows "histories_unique (perform a s)"
proof (cases a)
  case FinishRound
  with assms show ?thesis by (simp add: finishRound_histories_unique)
next
  case PerformUndo
  with assms show ?thesis by (simp add: performUndo_histories_unique)
next
  case ConfirmBids
  with savePhaseSnapshot_histories_unique [OF assms] show ?thesis
    by (simp add: confirmBids_def histories_unique_def)
next
  case (UpdateTricks i delta)
  with assms show ?thesis
    by (simp add: updateTricks_def histories_unique_def split: option.splits RoundEntry.splits)
next
  case (UpdatePiratesCapture i delta)
  with assms show ?thesis
    by (simp add: updatePiratesCapture_def histories_unique_def
        split: option.splits RoundEntry.splits)
next
  case (ToggleSkullKingCapture i)
  with assms show ?thesis
    by (simp add: toggleSkullKingCapture_def histories_unique_def
        split: option.splits RoundEntry.splits)
qed (use assms in \<open>simp_all add: addPlayer_def removePlayer_def clearPlayers_def startGame_def
      setBid_def endGameEarly_def resetGame_def histories_unique_def one_entry_per_round_def\<close>)

lemma reachable_histories_unique: "reachable s \<Longrightarrow> histories_unique s"
proof (induction rule: reachable.induct)
  case initial
  show ?case by (simp add: initialSession_def histories_unique_def one_entry_per_round_def)
next
  case (step s a)
  then show ?case by (simp add: perform_histories_unique)
qed

subsection \<open>The log stays below its capacity\<close>

lemma slotBound_le: "r \<le> 10 \<Longrightarrow> slotBound r ph \<le> 19"
  by (cases ph) simp_all

lemma log_bounded_length: "log_bounded s \<Longrightarrow> length (phaseHistory s) \<le> 19"
proof -
  assume "log_bounded s"
  then have "int (length (phaseHistory s)) \<le> slotBound (currentRound s) (roundPhase s)"
    and "currentRound s \<le> 10" by (simp_all add: log_bounded_def)
  with slotBound_le [of "currentRound s" "roundPhase s"] show ?thesis by simp
qed

lemma log_bounded_setup:
  assumes "log_bounded s" "\<not> gameStarted s"
  shows "currentRound s = 1" "roundPhase s = Bidding" "phaseHistory s = []"
proof -
  from assms show r: "currentRound s = 1" and p: "roundPhase s = Bidding"
    by (simp_all add: log_bounded_def)
  from assms(1) have "int (length (phaseHistory s)) \<le> slotBound (currentRound s) (roundPhase s)"
    by (simp add: log_bounded_def)
  then show "phaseHistory s = []" by (simp add: r p)
qed

lemma pushSnapshot_below: "length history < 20 \<Longrightarrow> pushSnapshot history snapshot = history @ [snapshot]"
  by (simp add: pushSnapshot_def Let_def)

lemma log_bounded_push:
  assumes inv: "log_bounded s"
    and slot: "int (length (phaseHistory s)) \<le> slotBound (currentRound snapshot) (roundPhase snapshot)"
    and rnd: "1 \<le> currentRound snapshot" "currentRound snapshot \<le> 10"
    and s': "phaseHistory s' = pushSnapshot (phaseHistory s) snapshot"
    and cur: "1 \<le> currentRound s'" "currentRound s' \<le> 10"
    and bound: "int (length (phaseHistory s)) + 1 \<le> slotBound (currentRound s') (roundPhase s')"
    and started: "gameStarted s'"
  shows "log_bounded s'"
proof -
  from log_bounded_length [OF inv] have "length (phaseHistory s) < 20" by simp
  then have ph: "phaseHistory s' = phaseHistory s @ [snapshot]"
    by (simp add: s' pushSnapshot_below)
  have "1 \<le> currentRound (phaseHistory s' ! k) \<and> currentRound (phaseHistory s' ! k) \<le> 10
        \<and> int k \<le> slotBound (currentRound (phaseHistory s' ! k)) (roundPhase (phaseHistory s' ! k))"
    if "k < length (phaseHistory s')" for k
  proof (cases "k < length (phaseHistory s)")
    case True
    with inv show ?thesis by (simp add: ph nth_append log_bounded_def)
  next
    case False
    with that have "k = length (phaseHistory s)" by (simp add: ph)
    with slot rnd show ?thesis by (simp add: ph)
  qed
  with cur bound started show ?thesis by (simp add: log_bounded_def ph)
qed

lemma confirmBids_log_bounded:
  assumes "log_bounded s" "roundPhase s = Bidding" "gameStarted s"
  shows "log_bounded (confirmBids s)"
proof (rule log_bounded_push [OF assms(1)])
  show "phaseHistory (confirmBids s) = pushSnapshot (phaseHistory s)
      \<lparr>roundData = cloneRecord (roundData s), players = clonePlayers (players s),
       currentRound = currentRound s, roundPhase = roundPhase s,
       gameHistory = cloneGameHistory (gameHistory s)\<rparr>"
    by (simp add: confirmBids_def savePhaseSnapshot_def)
qed (use assms in \<open>simp_all add: confirmBids_def savePhaseSnapshot_def log_bounded_def\<close>)

lemma finishRound_log_bounded:
  assumes inv: "log_bounded s" and ph: "roundPhase s = Scoring" and st: "gameStarted s"
  shows "log_bounded (snd (finishRound s))"
proof (cases "fst (finishRound s) = Finished")
  case False
  with inv show ?thesis by (simp add: finishRound_unfinished)
next
  case True
  then have fin: "finishRound s = (Finished, snd (finishRound s))" by (simp add: prod_eq_iff)
  from fin show ?thesis
  proof (rule finishRound_Finished)
    fix rd and rows :: "((nat \<times> RoundScore) \<times> Player) list"
    let ?s' = "snd (finishRound s)"
    let ?snap = "\<lparr>roundData = cloneRecord (roundData s),
           players = clonePlayers (map snd rows),
           currentRound = currentRound s,
           roundPhase = Scoring,
           gameHistory = cloneGameHistory (updatedHistory s (fromEntries (map fst rows)))\<rparr>"
    assume started: "gameStarted ?s' = gameStarted s"
      and adv: "currentRound s < 10 \<Longrightarrow>
         phaseHistory ?s' = pushSnapshot (phaseHistory s) ?snap
         \<and> roundData ?s' = initialRoundData (map snd rows)
         \<and> currentRound ?s' = currentRound s + 1 \<and> roundPhase ?s' = Bidding"
      and last: "\<not> currentRound s < 10 \<Longrightarrow>
         phaseHistory ?s' = phaseHistory s \<and> roundData ?s' = roundData s
         \<and> currentRound ?s' = currentRound s \<and> roundPhase ?s' = Complete"
    show ?thesis
    proof (cases "currentRound s < 10")
      case True
      show ?thesis
      proof (rule log_bounded_push [OF inv, of ?snap])
        show "phaseHistory ?s' = pushSnapshot (phaseHistory s) ?snap" using adv True by simp
      qed (use inv ph st started adv True in \<open>simp_all add: log_bounded_def\<close>)
    next
      case False
      with last inv st started log_bounded_length [OF inv] show ?thesis
        by (simp add: log_bounded_def)
    qed
  qed
qed

lemma performUndo_log_bounded:
  assumes inv: "log_bounded s" and st: "gameStarted s"
  shows "log_bounded (performUndo s)"
proof (cases "popSnapshot (phaseHistory s)")
  case None
  with inv show ?thesis by (simp add: performUndo_def)
next
  case (Some popped)
  obtain snapshot newHistory where popped: "popped = (snapshot, newHistory)" by (cases popped)
  from Some popped have ph: "phaseHistory s = newHistory @ [snapshot]"
    by (simp add: popSnapshot_Some)
  from inv have all: "\<And>k. k < length (phaseHistory s) \<Longrightarrow>
      1 \<le> currentRound (phaseHistory s ! k) \<and> currentRound (phaseHistory s ! k) \<le> 10
      \<and> int k \<le> slotBound (currentRound (phaseHistory s ! k)) (roundPhase (phaseHistory s ! k))"
    by (simp add: log_bounded_def)
  from all [of "length newHistory"] have top: "1 \<le> currentRound snapshot"
    "currentRound snapshot \<le> 10"
    "int (length newHistory) \<le> slotBound (currentRound snapshot) (roundPhase snapshot)"
    by (simp_all add: ph)
  have rest: "1 \<le> currentRound (newHistory ! k) \<and> currentRound (newHistory ! k) \<le> 10
      \<and> int k \<le> slotBound (currentRound (newHistory ! k)) (roundPhase (newHistory ! k))"
    if "k < length newHistory" for k
    using all [of k] that by (simp add: ph nth_append)
  from Some popped top rest st show ?thesis
    by (simp add: performUndo_def log_bounded_def)
qed

lemma perform_log_bounded:
  assumes "log_bounded s" "offered a s"
  shows "log_bounded (perform a s)"
proof (cases a)
  case FinishRound
  with assms show ?thesis by (simp add: finishRound_log_bounded)
next
  case PerformUndo
  with assms show ?thesis by (simp add: performUndo_log_bounded)
next
  case ConfirmBids
  with assms show ?thesis by (simp add: confirmBids_log_bounded)
next
  case (UpdateTricks i delta)
  with assms show ?thesis
    by (simp add: updateTricks_def log_bounded_def split: option.splits RoundEntry.splits)
next
  case (UpdatePiratesCapture i delta)
  with assms show ?thesis
    by (simp add: updatePiratesCapture_def log_bounded_def split: option.splits RoundEntry.splits)
next
  case (ToggleSkullKingCapture i)
  with assms show ?thesis
    by (simp add: toggleSkullKingCapture_def log_bounded_def
        split: option.splits RoundEntry.splits)
next
  case (EndGameEarly confirmed)
  with assms log_bounded_length [OF assms(1)] show ?thesis
    by (simp add: endGameEarly_def log_bounded_def)
next
  case StartGame
  with assms show ?thesis by (simp add: startGame_def log_bounded_def)
next
  case (AddPlayer playerName)
  with assms(2) have "\<not> gameStarted s" by simp
  from log_bounded_setup [OF assms(1) this] show ?thesis
    by (simp add: AddPlayer addPlayer_def log_bounded_def)
next
  case (RemovePlayer index)
  with assms(2) have "\<not> gameStarted s" by simp
  from log_bounded_setup [OF assms(1) this] show ?thesis
    by (simp add: RemovePlayer removePlayer_def log_bounded_def)
next
  case (ClearPlayers confirmed)
  with assms(2) have "\<not> gameStarted s" by simp
  from log_bounded_setup [OF assms(1) this] show ?thesis
    by (simp add: ClearPlayers clearPlayers_def log_bounded_def)
qed (use assms in \<open>simp_all add: setBid_def resetGame_def log_bounded_def\<close>)

lemma reachable_log_bounded: "reachable s \<Longrightarrow> log_bounded s"
proof (induction rule: reachable.induct)
  case initial
  show ?case by (simp add: initialSession_def log_bounded_def)
next
  case (step s a)
  then show ?case by (simp add: perform_log_bounded)
qed

lemma undo_of_push:
  assumes "records_ascending s" "length (phaseHistory s) < 20"
  shows "performUndo (savePhaseSnapshot s) = s"
proof -
  from assms(1) have rd: "cloneRecord (roundData s) = roundData s"
    and gh: "cloneGameHistory (gameHistory s) = gameHistory s"
    by (simp_all add: records_ascending_def cloneRecord_id cloneGameHistory_id)
  from assms(2) show ?thesis
    by (simp add: performUndo_def savePhaseSnapshot_def pushSnapshot_below popSnapshot_def
        rd gh clonePlayers_id)
qed

subsection \<open>Snapshots and the live state share no object\<close>

lemma mapAlloc_fresh:
  assumes "\<And>x n y n'. x \<in> set xs \<Longrightarrow> f x n = (y, n') \<Longrightarrow> n \<le> n' \<and> A y \<subseteq> {n..<n'}"
    and "mapAlloc f xs n = (ys, n')"
  shows "n \<le> n' \<and> (\<Union>y \<in> set ys. A y) \<subseteq> {n..<n'}"
  using assms
proof (induction xs arbitrary: n ys n')
  case Nil
  then show ?case by simp
next
  case (Cons x xs)
  obtain y n1 where y: "f x n = (y, n1)" by (cases "f x n")
  obtain ys' n2 where ys': "mapAlloc f xs n1 = (ys', n2)" by (cases "mapAlloc f xs n1")
  from Cons.prems(2) y ys' have ys: "ys = y # ys'" and n': "n' = n2" by simp_all
  from Cons.prems(1) [of x n y n1] y have h: "n \<le> n1" "A y \<subseteq> {n..<n1}" by simp_all
  have "n1 \<le> n2 \<and> (\<Union>y \<in> set ys'. A y) \<subseteq> {n1..<n2}"
  proof (rule Cons.IH [OF _ ys'])
    fix x' m y' m'
    assume "x' \<in> set xs" "f x' m = (y', m')"
    then show "m \<le> m' \<and> A y' \<subseteq> {m..<m'}" using Cons.prems(1) [of x' m y' m'] by simp
  qed
  with h show ?case by (fastforce simp: ys n')
qed

lemma mapAlloc_value:
  assumes "\<And>x n y n'. x \<in> set xs \<Longrightarrow> f x n = (y, n') \<Longrightarrow> v y = g x"
    and "mapAlloc f xs n = (ys, n')"
  shows "map v ys = map g xs"
  using assms
proof (induction xs arbitrary: n ys n')
  case Nil
  then show ?case by simp
next
  case (Cons x xs)
  obtain y n1 where y: "f x n = (y, n1)" by (cases "f x n")
  obtain ys' n2 where ys': "mapAlloc f xs n1 = (ys', n2)" by (cases "mapAlloc f xs n1")
  from Cons.prems(2) y ys' have ys: "ys = y # ys'" by simp
  from Cons.prems(1) [of x n y n1] y have "v y = g x" by simp
  moreover have "map v ys' = map g xs"
  proof (rule Cons.IH [OF _ ys'])
    fix x' m y' m'
    assume "x' \<in> set xs" "f x' m = (y', m')"
    then show "v y' = g x'" using Cons.prems(1) [of x' m y' m'] by simp
  qed
  ultimately show ?case by (simp add: ys)
qed

lemma set_rec_set: "set (rec_set k v obj) \<subseteq> insert (k, v) (set obj)"
proof (induction obj)
  case Nil
  show ?case by simp
next
  case (Cons kv obj)
  obtain k' v' where kv: "kv = (k', v')" by (cases kv)
  from Cons.IH show ?case by (auto simp: kv)
qed

lemma set_fromEntries: "set (fromEntries kvs) \<subseteq> set kvs"
proof -
  have "set (foldl (\<lambda>obj (k, v). rec_set k v obj) acc kvs) \<subseteq> set acc \<union> set kvs" for acc :: "'a Record"
  proof (induction kvs arbitrary: acc)
    case Nil
    show ?case by simp
  next
    case (Cons kv kvs)
    obtain k v where kv: "kv = (k, v)" by (cases kv)
    from Cons.IH [of "rec_set k v acc"] set_rec_set [of k v acc] show ?case
      by (auto simp: kv)
  qed
  from this [of "[]"] show ?thesis by (simp add: fromEntries_def)
qed

lemma map_rec_set:
  "map (\<lambda>(k, v). (k, f v)) (rec_set k v obj) = rec_set k (f v) (map (\<lambda>(k, v). (k, f v)) obj)"
proof (induction obj)
  case Nil
  show ?case by simp
next
  case (Cons kv obj)
  obtain k' v' where kv: "kv = (k', v')" by (cases kv)
  from Cons.IH show ?case by (simp add: kv)
qed

lemma map_fromEntries:
  "map (\<lambda>(k, v). (k, f v)) (fromEntries kvs) = fromEntries (map (\<lambda>(k, v). (k, f v)) kvs)"
proof -
  have "map (\<lambda>(k, v). (k, f v)) (foldl (\<lambda>obj (k, v). rec_set k v obj) acc kvs)
      = foldl (\<lambda>obj (k, v). rec_set k v obj) (map (\<lambda>(k, v). (k, f v)) acc)
          (map (\<lambda>(k, v). (k, f v)) kvs)" for acc
  proof (induction kvs arbitrary: acc)
    case Nil
    show ?case by simp
  next
    case (Cons kv kvs)
    obtain k v where kv: "kv = (k, v)" by (cases kv)
    from Cons.IH [of "rec_set k v acc"] show ?case by (simp add: kv map_rec_set)
  qed
  from this [of "[]"] show ?thesis by (simp add: fromEntries_def)
qed

lemma cloneRecordObj_spec:
  assumes "cloneRecordObj obj n = (obj', n')"
  shows "n \<le> n'" and "recordAddrs obj' \<subseteq> {n..<n'}"
    and "recordValue obj' = cloneRecord (recordValue obj)"
proof -
  let ?f = "\<lambda>(k, v) m. let (v', m') = spread v m in ((k, v'), m')"
  obtain kvs n1 where kvs: "mapAlloc ?f (snd obj) n = (kvs, n1)"
    by (cases "mapAlloc ?f (snd obj) n")
  with assms have obj': "obj' = (n1, fromEntries kvs)" and n': "n' = Suc n1"
    by (simp_all add: cloneRecordObj_def entries_def newObject_def)
  have fresh: "n \<le> n1 \<and> (\<Union>y \<in> set kvs. {fst (snd y)}) \<subseteq> {n..<n1}"
    by (rule mapAlloc_fresh [OF _ kvs]) (auto simp: spread_def newObject_def)
  then show "n \<le> n'" by (simp add: n')
  from fresh set_fromEntries [of kvs] show "recordAddrs obj' \<subseteq> {n..<n'}"
    by (fastforce simp: recordAddrs_def obj' n')
  have "map (\<lambda>(k, v). (k, snd v)) kvs = map (\<lambda>(k, v). (k, snd v)) (snd obj)"
    by (rule mapAlloc_value [OF _ kvs]) (auto simp: spread_def newObject_def)
  then show "recordValue obj' = cloneRecord (recordValue obj)"
    by (simp add: recordValue_def obj' map_fromEntries cloneRecord_def entries_def)
qed

lemma clonePlayersObj_spec:
  assumes "clonePlayersObj ps n = (ps', n')"
  shows "n \<le> n'" and "playersAddrs ps' \<subseteq> {n..<n'}"
    and "playersValue ps' = clonePlayers (playersValue ps)"
proof -
  obtain xs n1 where xs: "mapAlloc spread (snd ps) n = (xs, n1)"
    by (cases "mapAlloc spread (snd ps) n")
  with assms have ps': "ps' = (n1, xs)" and n': "n' = Suc n1"
    by (simp_all add: clonePlayersObj_def newObject_def)
  have fresh: "n \<le> n1 \<and> (\<Union>y \<in> set xs. {fst y}) \<subseteq> {n..<n1}"
    by (rule mapAlloc_fresh [OF _ xs]) (auto simp: spread_def newObject_def)
  then show "n \<le> n'" by (simp add: n')
  from fresh show "playersAddrs ps' \<subseteq> {n..<n'}"
    by (fastforce simp: playersAddrs_def ps' n')
  have "map snd xs = map snd (snd ps)"
    by (rule mapAlloc_value [OF _ xs]) (auto simp: spread_def newObject_def)
  then show "playersValue ps' = clonePlayers (playersValue ps)"
    by (simp add: playersValue_def ps' clonePlayers_def)
qed

lemma cloneEntryObj_spec:
  assumes "cloneEntryObj entry n = (entry', n')"
  shows "n \<le> n'" and "entryAddrs entry' \<subseteq> {n..<n'}"
    and "entryValue entry' = (entryValue entry)\<lparr>scores := cloneRecord (scores (entryValue entry))\<rparr>"
proof -
  obtain sc n1 where sc: "cloneRecordObj (snd (snd entry)) n = (sc, n1)"
    by (cases "cloneRecordObj (snd (snd entry)) n")
  with assms have entry': "entry' = (n1, (fst (snd entry), sc))" and n': "n' = Suc n1"
    by (simp_all add: cloneEntryObj_def newObject_def)
  note spec = cloneRecordObj_spec [OF sc]
  from spec(1) show "n \<le> n'" by (simp add: n')
  from spec(1,2) show "entryAddrs entry' \<subseteq> {n..<n'}"
    by (fastforce simp: entryAddrs_def entry' n')
  from spec(3) show "entryValue entry'
      = (entryValue entry)\<lparr>scores := cloneRecord (scores (entryValue entry))\<rparr>"
    by (simp add: entryValue_def entry')
qed

lemma cloneGameHistoryObj_spec:
  assumes "cloneGameHistoryObj h n = (h', n')"
  shows "n \<le> n'" and "historyAddrs h' \<subseteq> {n..<n'}"
    and "historyValue h' = cloneGameHistory (historyValue h)"
proof -
  obtain es n1 where es: "mapAlloc cloneEntryObj (snd h) n = (es, n1)"
    by (cases "mapAlloc cloneEntryObj (snd h) n")
  with assms have h': "h' = (n1, es)" and n': "n' = Suc n1"
    by (simp_all add: cloneGameHistoryObj_def newObject_def)
  have fresh: "n \<le> n1 \<and> (\<Union>y \<in> set es. entryAddrs y) \<subseteq> {n..<n1}"
    by (rule mapAlloc_fresh [OF _ es]) (use cloneEntryObj_spec(1,2) in blast)
  then show "n \<le> n'" by (simp add: n')
  from fresh show "historyAddrs h' \<subseteq> {n..<n'}"
    by (fastforce simp: historyAddrs_def h' n')
  have "map entryValue es
      = map (\<lambda>entry. (entryValue entry)\<lparr>scores := cloneRecord (scores (entryValue entry))\<rparr>) (snd h)"
    by (rule mapAlloc_value [OF _ es]) (use cloneEntryObj_spec(3) in blast)
  then show "historyValue h' = cloneGameHistory (historyValue h)"
    by (simp add: historyValue_def h' cloneGameHistory_def comp_def)
qed

lemma map_pushSnapshot: "map f (pushSnapshot history x) = pushSnapshot (map f history) (f x)"
  by (simp add: pushSnapshot_def Let_def map_tl)

lemma last_pushSnapshot: "last (pushSnapshot history x) = x"
proof (cases history)
  case Nil
  then show ?thesis by (simp add: pushSnapshot_def Let_def)
next
  case (Cons y ys)
  then have "tl (history @ [x]) = ys @ [x]" by simp
  then show ?thesis by (simp add: pushSnapshot_def Let_def)
qed

lemma pushSnapshot_not_Nil: "pushSnapshot history x \<noteq> []"
proof (cases "length history < 20")
  case True
  then show ?thesis by (simp add: pushSnapshot_def Let_def)
next
  case False
  then have "history \<noteq> []" by auto
  then have "tl (history @ [x]) \<noteq> []" by simp
  with False show ?thesis by (simp add: pushSnapshot_def Let_def)
qed

lemma popSnapshot_map:
  "popSnapshot (map f history) = map_option (\<lambda>(x, rest). (f x, map f rest)) (popSnapshot history)"
  by (simp add: popSnapshot_def last_map map_butlast)

lemma savePhaseSnapshotObj_spec:
  obtains snapshot where
    "phaseHistoryObj (savePhaseSnapshotObj s) = pushSnapshot (phaseHistoryObj s) snapshot"
    "nextAddr s \<le> nextAddr (savePhaseSnapshotObj s)"
    "collectionAddrs snapshot \<subseteq> {nextAddr s..<nextAddr (savePhaseSnapshotObj s)}"
    "sessionValue (savePhaseSnapshotObj s) = savePhaseSnapshot (sessionValue s)"
proof -
  obtain rd n1 where rd: "cloneRecordObj (roundDataObj s) (nextAddr s) = (rd, n1)"
    by (cases "cloneRecordObj (roundDataObj s) (nextAddr s)")
  obtain ps n2 where ps: "clonePlayersObj (playersObj s) n1 = (ps, n2)"
    by (cases "clonePlayersObj (playersObj s) n1")
  obtain gh n3 where gh: "cloneGameHistoryObj (gameHistoryObj s) n2 = (gh, n3)"
    by (cases "cloneGameHistoryObj (gameHistoryObj s) n2")
  let ?snapshot = "\<lparr>roundDataObj = rd, playersObj = ps, currentRoundObj = currentRoundObj s,
      roundPhaseObj = roundPhaseObj s, gameHistoryObj = gh\<rparr>"
  note r = cloneRecordObj_spec [OF rd] and p = clonePlayersObj_spec [OF ps]
    and g = cloneGameHistoryObj_spec [OF gh]
  have eq: "savePhaseSnapshotObj s
       = s\<lparr>phaseHistoryObj := pushSnapshot (phaseHistoryObj s) ?snapshot, nextAddr := n3\<rparr>"
    by (simp add: savePhaseSnapshotObj_def rd ps gh)
  show thesis
  proof (rule that [of ?snapshot])
    show "phaseHistoryObj (savePhaseSnapshotObj s) = pushSnapshot (phaseHistoryObj s) ?snapshot"
      by (simp add: eq)
    from r(1) p(1) g(1) show "nextAddr s \<le> nextAddr (savePhaseSnapshotObj s)"
      by (simp add: eq)
    have "recordAddrs rd \<subseteq> {nextAddr s..<n3}" using r(2) p(1) g(1) by fastforce
    moreover have "playersAddrs ps \<subseteq> {nextAddr s..<n3}" using r(1) p(2) g(1) by fastforce
    moreover have "historyAddrs gh \<subseteq> {nextAddr s..<n3}" using r(1) p(1) g(2) by fastforce
    ultimately show "collectionAddrs ?snapshot \<subseteq> {nextAddr s..<nextAddr (savePhaseSnapshotObj s)}"
      by (simp add: collectionAddrs_def eq)
    from r(3) p(3) g(3) have "snapshotValue ?snapshot
       = \<lparr>roundData = cloneRecord (recordValue (roundDataObj s)),
          players = clonePlayers (playersValue (playersObj s)),
          currentRound = currentRoundObj s,
          roundPhase = roundPhaseObj s,
          gameHistory = cloneGameHistory (historyValue (gameHistoryObj s))\<rparr>"
      by (simp add: snapshotValue_def)
    then show "sessionValue (savePhaseSnapshotObj s) = savePhaseSnapshot (sessionValue s)"
      by (simp add: eq savePhaseSnapshot_def sessionValue_def map_pushSnapshot)
  qed
qed

lemma performUndoObj_spec:
  assumes "popSnapshot (phaseHistoryObj s) = Some (snapshot, newHistory)"
  shows "collectionAddrs (performUndoObj s) \<subseteq> {nextAddr s..<nextAddr (performUndoObj s)}"
    and "sessionValue (performUndoObj s) = performUndo (sessionValue s)"
proof -
  obtain rd n1 where rd: "cloneRecordObj (roundDataObj snapshot) (nextAddr s) = (rd, n1)"
    by (cases "cloneRecordObj (roundDataObj snapshot) (nextAddr s)")
  obtain ps n2 where ps: "clonePlayersObj (playersObj snapshot) n1 = (ps, n2)"
    by (cases "clonePlayersObj (playersObj snapshot) n1")
  obtain gh n3 where gh: "cloneGameHistoryObj (gameHistoryObj snapshot) n2 = (gh, n3)"
    by (cases "cloneGameHistoryObj (gameHistoryObj snapshot) n2")
  note r = cloneRecordObj_spec [OF rd] and p = clonePlayersObj_spec [OF ps]
    and g = cloneGameHistoryObj_spec [OF gh]
  have eq: "performUndoObj s
      = s\<lparr>phaseHistoryObj := newHistory, roundDataObj := rd, playersObj := ps,
          currentRoundObj := currentRoundObj snapshot, roundPhaseObj := roundPhaseObj snapshot,
          gameHistoryObj := gh, nextAddr := n3\<rparr>"
    by (simp add: performUndoObj_def assms rd ps gh)
  have "recordAddrs rd \<subseteq> {nextAddr s..<n3}" using r(2) p(1) g(1) by fastforce
  moreover have "playersAddrs ps \<subseteq> {nextAddr s..<n3}" using r(1) p(2) g(1) by fastforce
  moreover have "historyAddrs gh \<subseteq> {nextAddr s..<n3}" using r(1) p(1) g(2) by fastforce
  ultimately show "collectionAddrs (performUndoObj s) \<subseteq> {nextAddr s..<nextAddr (performUndoObj s)}"
    by (simp add: eq collectionAddrs_def)
  have "popSnapshot (phaseHistory (sessionValue s))
      = Some (snapshotValue snapshot, map snapshotValue newHistory)"
    by (simp add: sessionValue_def popSnapshot_map assms)
  then show "sessionValue (performUndoObj s) = performUndo (sessionValue s)"
    using r(3) p(3) g(3)
    by (simp add: performUndo_def eq) (simp add: sessionValue_def snapshotValue_def)
qed

lemma sessionValue_performUndoObj:
  "sessionValue (performUndoObj s) = performUndo (sessionValue s)"
proof (cases "popSnapshot (phaseHistoryObj s)")
  case None
  then have "popSnapshot (phaseHistory (sessionValue s)) = None"
    by (simp add: sessionValue_def popSnapshot_map)
  with None show ?thesis by (simp add: performUndoObj_def performUndo_def)
next
  case (Some popped)
  then show ?thesis by (cases popped) (simp add: performUndoObj_spec(2))
qed

text \<open>
  C4. In every reachable session, saving a snapshot and undoing at once gives back the
  session as it was before the push, undo log included. With identities: when every
  object of the session came from the allocator, the restored \<open>roundData\<close>, \<open>players\<close>
  and \<open>gameHistory\<close> share no object with the snapshot that was stored and popped, nor
  with any other snapshot of the log, and that snapshot shares no object with the live
  collections it was taken from.
\<close>

theorem push_then_undo:
  assumes "reachable (sessionValue s)" and "allocated s"
  shows "sessionValue (performUndoObj (savePhaseSnapshotObj s)) = sessionValue s
         \<and> performUndo (savePhaseSnapshot (sessionValue s)) = sessionValue s
         \<and> collectionAddrs (performUndoObj (savePhaseSnapshotObj s))
             \<inter> collectionAddrs (last (phaseHistoryObj (savePhaseSnapshotObj s))) = {}
         \<and> collectionAddrs (last (phaseHistoryObj (savePhaseSnapshotObj s)))
             \<inter> collectionAddrs s = {}
         \<and> (\<forall>stored \<in> set (phaseHistoryObj (savePhaseSnapshotObj s)).
               collectionAddrs (performUndoObj (savePhaseSnapshotObj s))
                 \<inter> collectionAddrs stored = {})"
proof -
  let ?s1 = "savePhaseSnapshotObj s"
  let ?s2 = "performUndoObj ?s1"
  have roundtrip: "performUndo (savePhaseSnapshot (sessionValue s)) = sessionValue s"
  proof (rule undo_of_push)
    from assms(1) show "records_ascending (sessionValue s)" by (rule reachable_records_ascending)
    from assms(1) have "log_bounded (sessionValue s)" by (rule reachable_log_bounded)
    then show "length (phaseHistory (sessionValue s)) < 20" using log_bounded_length by fastforce
  qed
  obtain snapshot where log: "phaseHistoryObj ?s1 = pushSnapshot (phaseHistoryObj s) snapshot"
    and mono: "nextAddr s \<le> nextAddr ?s1"
    and fresh: "collectionAddrs snapshot \<subseteq> {nextAddr s..<nextAddr ?s1}"
    and saved: "sessionValue ?s1 = savePhaseSnapshot (sessionValue s)"
    by (rule savePhaseSnapshotObj_spec)
  from roundtrip have erased: "sessionValue ?s2 = sessionValue s"
    by (simp add: sessionValue_performUndoObj saved)
  from log have stored: "last (phaseHistoryObj ?s1) = snapshot" by (simp add: last_pushSnapshot)
  from log have "popSnapshot (phaseHistoryObj ?s1)
      = Some (snapshot, butlast (phaseHistoryObj ?s1))"
    by (simp add: popSnapshot_def pushSnapshot_not_Nil last_pushSnapshot)
  from performUndoObj_spec(1) [OF this]
  have restored: "collectionAddrs ?s2 \<subseteq> {nextAddr ?s1..<nextAddr ?s2}" .
  from assms(2) have old: "collectionAddrs s \<subseteq> {..<nextAddr s}"
    and old_log: "\<forall>stored \<in> set (phaseHistoryObj s). collectionAddrs stored \<subseteq> {..<nextAddr s}"
    by (auto simp: allocated_def)
  have a: "collectionAddrs ?s2 \<inter> collectionAddrs snapshot = {}"
    using restored fresh by fastforce
  have b: "collectionAddrs snapshot \<inter> collectionAddrs s = {}"
    using fresh old by fastforce
  have c: "collectionAddrs ?s2 \<inter> collectionAddrs stored = {}"
    if "stored \<in> set (phaseHistoryObj ?s1)" for stored
  proof -
    from that log set_pushSnapshot [of "phaseHistoryObj s" snapshot]
    have "stored = snapshot \<or> stored \<in> set (phaseHistoryObj s)" by auto
    then have "collectionAddrs stored \<subseteq> {..<nextAddr ?s1}"
      using fresh old_log mono by fastforce
    with restored show ?thesis by fastforce
  qed
  from erased roundtrip a b c show ?thesis by (simp add: stored)
qed

lemmas obj_defs = savePhaseSnapshotObj_def performUndoObj_def cloneRecordObj_def
  clonePlayersObj_def cloneGameHistoryObj_def cloneEntryObj_def spread_def newObject_def
  recordAddrs_def playersAddrs_def entryAddrs_def historyAddrs_def collectionAddrs_def
  recordValue_def playersValue_def entryValue_def historyValue_def snapshotValue_def
  sessionValue_def allocated_def

theorem push_then_undo_witness:
  "reachable (sessionValue replaySessionObj) \<and> allocated replaySessionObj
   \<and> sessionValue (performUndoObj (savePhaseSnapshotObj replaySessionObj)) = replaySession
   \<and> collectionAddrs replaySessionObj = {0..10}
   \<and> collectionAddrs (last (phaseHistoryObj (savePhaseSnapshotObj replaySessionObj))) = {18..28}
   \<and> collectionAddrs (performUndoObj (savePhaseSnapshotObj replaySessionObj)) = {29..39}"
proof -
  have v: "sessionValue replaySessionObj = replaySession"
    by (simp add: replaySessionObj_def replaySession_def replayTrace_def obj_defs op_defs
        Let_def upt_rec)
  have r: "reachable (sessionValue replaySessionObj)"
    by (simp only: v replaySession_reachable)
  have a: "allocated replaySessionObj"
    by (simp add: replaySessionObj_def obj_defs)
  have c0: "collectionAddrs replaySessionObj = {0..10}"
    by (auto simp: replaySessionObj_def obj_defs) arith
  have c1: "collectionAddrs (last (phaseHistoryObj (savePhaseSnapshotObj replaySessionObj))) = {18..28}"
    by (auto simp: replaySessionObj_def obj_defs op_defs Let_def) arith
  have c2: "collectionAddrs (performUndoObj (savePhaseSnapshotObj replaySessionObj)) = {29..39}"
    by (auto simp: replaySessionObj_def obj_defs op_defs Let_def) arith
  from push_then_undo [OF r a] v r a c0 c1 c2 show ?thesis by simp
qed

section \<open>Totals\<close>

lemma foldl_plus_sum_list:
  "foldl (\<lambda>sum x. sum + f x) a xs = (a :: int) + sum_list (map f xs)"
  by (induction xs arbitrary: a) simp_all

lemma typedRecord_Some:
  "typedRecord obj = Some rd \<Longrightarrow> obj = map (\<lambda>(k, d). (k, Typed d)) rd"
proof (induction obj arbitrary: rd)
  case Nil
  then show ?case by (simp add: typedRecord_def)
next
  case (Cons kv obj)
  obtain k e where kv: "kv = (k, e)" by (cases kv)
  from Cons.prems obtain d rd' where e: "e = Typed d" and rd': "typedRecord obj = Some rd'"
    and rd: "rd = (k, d) # rd'"
    by (auto simp: typedRecord_def kv split: RoundEntry.splits option.splits)
  from Cons.IH [OF rd'] show ?case by (simp add: kv e rd)
qed

lemma typedRecord_lookup:
  assumes "typedRecord obj = Some rd"
  shows "lookup obj i = map_option Typed (lookup rd i)"
proof -
  have "map_of (map (\<lambda>(k, d). (k, Typed d)) rd) i = map_option Typed (map_of rd i)"
    by (induction rd) auto
  with typedRecord_Some [OF assms] show ?thesis by (simp add: lookup_def)
qed

lemma previousRounds_filter:
  assumes "one_entry_per_round (gameHistory s)"
  shows "previousRounds s = filter (\<lambda>entry. round entry \<noteq> currentRound s) (gameHistory s)"
proof (cases "existingRoundIndex s")
  case None
  have "round entry \<noteq> currentRound s" if "entry \<in> set (gameHistory s)" for entry
  proof
    assume "round entry = currentRound s"
    with that have "currentRound s \<in> set (map round (gameHistory s))"
      by (metis image_eqI set_map)
    with updatedHistory_append(1) [OF None] show False by contradiction
  qed
  then have "filter (\<lambda>entry. round entry \<noteq> currentRound s) (gameHistory s) = gameHistory s"
    by (simp add: filter_id_conv)
  with None show ?thesis by (simp add: previousRounds_def)
next
  case (Some idx)
  let ?h = "gameHistory s"
  let ?keep = "\<lambda>entry. round entry \<noteq> currentRound s"
  from updatedHistory_replace(1,2) [OF Some]
  have idx: "idx < length ?h" and at: "round (?h ! idx) = currentRound s" by simp_all
  from idx have split: "?h = take idx ?h @ ?h ! idx # drop (Suc idx) ?h"
    by (rule id_take_nth_drop)
  from assms have "distinct (map round (take idx ?h @ ?h ! idx # drop (Suc idx) ?h))"
    unfolding one_entry_per_round_def using split by simp
  then have "currentRound s \<notin> set (map round (take idx ?h))"
    and "currentRound s \<notin> set (map round (drop (Suc idx) ?h))"
    by (simp_all add: at)
  then have "\<forall>entry \<in> set (take idx ?h). ?keep entry"
    and "\<forall>entry \<in> set (drop (Suc idx) ?h). ?keep entry"
    by (metis image_eqI set_map)+
  then have "filter ?keep (take idx ?h) = take idx ?h"
    and "filter ?keep (drop (Suc idx) ?h) = drop (Suc idx) ?h"
    by (simp_all add: filter_id_conv)
  moreover have "filter ?keep ?h
      = filter ?keep (take idx ?h) @ filter ?keep [?h ! idx] @ filter ?keep (drop (Suc idx) ?h)"
    by (subst split) simp
  ultimately have "filter ?keep ?h = take idx ?h @ drop (Suc idx) ?h" by (simp add: at)
  with Some show ?thesis by (simp add: previousRounds_def)
qed

lemma sum_updatedHistory:
  "sum_list (map f (updatedHistory s roundScores))
     = sum_list (map f (previousRounds s))
       + (f \<lparr>round = currentRound s, scores = roundScores\<rparr> :: int)"
  by (cases "existingRoundIndex s") (simp_all add: updatedHistory_def previousRounds_def)

lemma totals_match_Nil: "totals_match ps [] \<longleftrightarrow> (\<forall>p \<in> set ps. totalScore p = 0)"
proof
  assume "totals_match ps []"
  then have "\<forall>i < length ps. totalScore (ps ! i) = 0" by (simp add: totals_match_def)
  then show "\<forall>p \<in> set ps. totalScore p = 0" by (metis in_set_conv_nth)
next
  assume "\<forall>p \<in> set ps. totalScore p = 0"
  then have "\<forall>i < length ps. totalScore (ps ! i) = 0" by (metis nth_mem)
  then show "totals_match ps []" by (simp add: totals_match_def)
qed

lemma cloneGameHistory_idem: "cloneGameHistory (cloneGameHistory h) = cloneGameHistory h"
  by (rule cloneGameHistory_id) (rule cloneGameHistory_ascending)

lemma finished_totals_match:
  assumes fin: "finishRound s = (Finished, s')"
  shows "totals_match (players s') (gameHistory s')"
  using fin
proof (rule finishRound_Finished)
  fix rd and rows :: "((nat \<times> RoundScore) \<times> Player) list"
  assume rows: "finishRows s rd = Some rows"
    and hist: "gameHistory s' = updatedHistory s (fromEntries (map fst rows))"
    and pl: "players s' = map snd rows"
  from finishRows_nth(1) [OF rows] have len: "length rows = length (players s)" .
  have "totalScore (players s' ! i)
      = sum_list (map (\<lambda>entry. scoreOrZero entry i) (gameHistory s'))"
    if i: "i < length (players s)" for i
  proof -
    from finishRows_row [OF rows i] obtain data where data: "lookup rd i = Some data"
      and row: "rows ! i = ((i, \<lparr>bid = bid data, tricks = tricks data,
                      piratesCapture = piratesCapture data,
                      skullKingCapture = skullKingCapture data,
                      score = calculateScore (currentRound s) data\<rparr>),
                 (players s ! i)\<lparr>totalScore :=
                    foldl (\<lambda>sum entry. sum + scoreOrZero entry i) 0 (previousRounds s)
                    + calculateScore (currentRound s) data\<rparr>)"
      by blast
    let ?prev = "sum_list (map (\<lambda>entry. scoreOrZero entry i) (previousRounds s))"
    let ?fresh = "calculateScore (currentRound s) data"
    from i len row have total: "totalScore (players s' ! i) = ?prev + ?fresh"
      by (simp add: pl foldl_plus_sum_list)
    have "map fst rows ! i = fst (rows ! i)" using i len by simp
    with i len have "fst (rows ! i) \<in> set (map fst rows)"
      by (metis length_map nth_mem)
    moreover have "distinct (map fst (map fst rows))"
      by (simp only: finishRows_keys [OF rows] distinct_upt)
    ultimately have "map_of (map fst rows) i = Some (snd (fst (rows ! i)))"
      using row by (intro map_of_is_SomeI) simp_all
    then have "scoreOrZero \<lparr>round = currentRound s, scores = fromEntries (map fst rows)\<rparr> i = ?fresh"
      by (simp add: scoreOrZero_def lookup_def finishRows_roundScores(1) [OF rows] row)
    then show ?thesis by (simp add: hist sum_updatedHistory total)
  qed
  with len show ?thesis by (simp add: totals_match_def pl)
qed

lemma finished_totals_consistent:
  assumes inv: "totals_consistent s" and asc: "records_ascending s" and st: "gameStarted s"
  shows "totals_consistent (snd (finishRound s))"
proof (cases "fst (finishRound s) = Finished")
  case False
  with inv show ?thesis by (simp add: finishRound_unfinished)
next
  case True
  let ?s' = "snd (finishRound s)"
  from True have fin: "finishRound s = (Finished, ?s')" by (simp add: prod_eq_iff)
  have live: "totals_match (players ?s') (gameHistory ?s')"
    by (rule finished_totals_match [OF fin])
  from finishRound_records_ascending [OF asc]
  have same: "cloneGameHistory (gameHistory ?s') = gameHistory ?s'"
    by (simp add: records_ascending_def cloneGameHistory_id)
  from fin show ?thesis
  proof (rule finishRound_Finished)
    fix rd and rows :: "((nat \<times> RoundScore) \<times> Player) list"
    let ?h = "updatedHistory s (fromEntries (map fst rows))"
    assume hist: "gameHistory ?s' = ?h"
      and pl: "players ?s' = map snd rows"
      and started: "gameStarted ?s' = gameStarted s"
      and adv: "currentRound s < 10 \<Longrightarrow>
         phaseHistory ?s' = pushSnapshot (phaseHistory s)
          \<lparr>roundData = cloneRecord (roundData s),
           players = clonePlayers (map snd rows),
           currentRound = currentRound s,
           roundPhase = Scoring,
           gameHistory = cloneGameHistory ?h\<rparr>
         \<and> roundData ?s' = initialRoundData (map snd rows)
         \<and> currentRound ?s' = currentRound s + 1 \<and> roundPhase ?s' = Bidding"
      and last: "\<not> currentRound s < 10 \<Longrightarrow>
         phaseHistory ?s' = phaseHistory s \<and> roundData ?s' = roundData s
         \<and> currentRound ?s' = currentRound s \<and> roundPhase ?s' = Complete"
    have "list_all (\<lambda>snapshot. totals_match (players snapshot)
               (cloneGameHistory (gameHistory snapshot))) (phaseHistory ?s')"
    proof (cases "currentRound s < 10")
      case True
      from live same have "totals_match (map snd rows) (cloneGameHistory (cloneGameHistory ?h))"
        by (simp add: hist pl cloneGameHistory_idem)
      with adv [OF True] inv show ?thesis
        by (simp add: totals_consistent_def list_all_pushSnapshot clonePlayers_id)
    next
      case False
      with last inv show ?thesis by (simp add: totals_consistent_def)
    qed
    with live started st show ?thesis by (simp add: totals_consistent_def)
  qed
qed

lemma savePhaseSnapshot_totals_consistent:
  assumes "totals_consistent s" "records_ascending s"
  shows "totals_consistent (savePhaseSnapshot s)"
proof -
  from assms(2) have "cloneGameHistory (gameHistory s) = gameHistory s"
    by (simp add: records_ascending_def cloneGameHistory_id)
  with assms(1) show ?thesis
    by (simp add: savePhaseSnapshot_def totals_consistent_def list_all_pushSnapshot
        clonePlayers_id)
qed

lemma performUndo_totals_consistent:
  assumes "totals_consistent s" "gameStarted s"
  shows "totals_consistent (performUndo s)"
  using assms
  by (auto simp: performUndo_def totals_consistent_def clonePlayers_id
      dest!: popSnapshot_Some split: option.splits)

lemma perform_totals_consistent:
  assumes inv: "totals_consistent s" and asc: "records_ascending s" and off: "offered a s"
  shows "totals_consistent (perform a s)"
proof (cases a)
  case (AddPlayer playerName)
  with off have "\<not> gameStarted s" by simp
  with inv have h: "gameHistory s = []" by (simp add: totals_consistent_def)
  with inv have "totals_match (players s) []" by (simp add: totals_consistent_def)
  then have "\<forall>p \<in> set (players s). totalScore p = 0" by (simp only: totals_match_Nil)
  with inv h AddPlayer show ?thesis
    by (simp add: addPlayer_def totals_consistent_def totals_match_Nil)
next
  case (RemovePlayer index)
  with off have "\<not> gameStarted s" by simp
  with inv have h: "gameHistory s = []" by (simp add: totals_consistent_def)
  with inv have "totals_match (players s) []" by (simp add: totals_consistent_def)
  then have z: "\<forall>p \<in> set (players s). totalScore p = 0" by (simp only: totals_match_Nil)
  have "set (map snd (filter (\<lambda>(i, _). i \<noteq> index) (enumerate 0 (players s)))) \<subseteq> set (players s)"
    by (auto simp: enumerate_eq_zip dest: set_zip_rightD)
  with z have "\<forall>p \<in> set (map snd (filter (\<lambda>(i, _). i \<noteq> index) (enumerate 0 (players s)))).
      totalScore p = 0" by blast
  with inv h RemovePlayer show ?thesis
    by (simp add: removePlayer_def totals_consistent_def totals_match_Nil)
next
  case (ClearPlayers confirmed)
  with off have "\<not> gameStarted s" by simp
  with inv have h: "gameHistory s = []" by (simp add: totals_consistent_def)
  with inv ClearPlayers show ?thesis
    by (simp add: clearPlayers_def totals_consistent_def totals_match_Nil)
next
  case FinishRound
  with inv asc off show ?thesis by (simp add: finished_totals_consistent)
next
  case PerformUndo
  with inv off show ?thesis by (simp add: performUndo_totals_consistent)
next
  case ConfirmBids
  with savePhaseSnapshot_totals_consistent [OF inv asc] off show ?thesis
    by (simp add: confirmBids_def totals_consistent_def)
next
  case (UpdateTricks i delta)
  with inv off show ?thesis
    by (simp add: updateTricks_def totals_consistent_def split: option.splits RoundEntry.splits)
next
  case (UpdatePiratesCapture i delta)
  with inv off show ?thesis
    by (simp add: updatePiratesCapture_def totals_consistent_def
        split: option.splits RoundEntry.splits)
next
  case (ToggleSkullKingCapture i)
  with inv off show ?thesis
    by (simp add: toggleSkullKingCapture_def totals_consistent_def
        split: option.splits RoundEntry.splits)
next
  case ResetGame
  then show ?thesis
    by (simp add: resetGame_def totals_consistent_def totals_match_Nil)
next
  case StartGame
  show ?thesis
  proof (cases "length (players s) \<ge> 2")
    case True
    from inv have "totals_match (players s) (gameHistory s)" by (simp add: totals_consistent_def)
    with StartGame True show ?thesis by (simp add: startGame_def totals_consistent_def)
  next
    case False
    with StartGame inv show ?thesis by (simp add: startGame_def)
  qed
qed (use inv off in \<open>simp_all add: setBid_def endGameEarly_def totals_consistent_def\<close>)

lemma reachable_totals_consistent: "reachable s \<Longrightarrow> totals_consistent s"
proof (induction rule: reachable.induct)
  case initial
  show ?case by (simp add: initialSession_def totals_consistent_def totals_match_def)
next
  case (step s a)
  from step.hyps(1) have "records_ascending s" by (rule reachable_records_ascending)
  with step show ?case by (simp add: perform_totals_consistent)
qed

lemma finishRound_player_total:
  assumes fin: "finishRound s = (Finished, s')"
    and uniq: "one_entry_per_round (gameHistory s)"
    and i: "i < length (players s)"
  shows "\<exists>data. lookup (roundData s) i = Some (Typed data)
           \<and> totalScore (players s' ! i)
               = sum_list (map (\<lambda>entry. scoreOrZero entry i)
                            (filter (\<lambda>entry. round entry \<noteq> currentRound s) (gameHistory s)))
                 + calculateScore (currentRound s) data
           \<and> length (players s') = length (players s)
           \<and> name (players s' ! i) = name (players s ! i)"
  using fin
proof (rule finishRound_Finished)
  fix rd and rows :: "((nat \<times> RoundScore) \<times> Player) list"
  assume rd: "typedRecord (roundData s) = Some rd"
    and rows: "finishRows s rd = Some rows"
    and pl: "players s' = map snd rows"
  from finishRows_nth(1) [OF rows] have len: "length rows = length (players s)" .
  from finishRows_row [OF rows i] obtain data where data: "lookup rd i = Some data"
    and row: "rows ! i = ((i, \<lparr>bid = bid data, tricks = tricks data,
                      piratesCapture = piratesCapture data,
                      skullKingCapture = skullKingCapture data,
                      score = calculateScore (currentRound s) data\<rparr>),
                 (players s ! i)\<lparr>totalScore :=
                    foldl (\<lambda>sum entry. sum + scoreOrZero entry i) 0 (previousRounds s)
                    + calculateScore (currentRound s) data\<rparr>)"
    by blast
  from data have typed: "lookup (roundData s) i = Some (Typed data)"
    by (simp add: typedRecord_lookup [OF rd])
  from i len row have "totalScore (players s' ! i)
      = sum_list (map (\<lambda>entry. scoreOrZero entry i) (previousRounds s))
        + calculateScore (currentRound s) data"
    by (simp add: pl foldl_plus_sum_list)
  moreover from i len row have "name (players s' ! i) = name (players s ! i)"
    by (simp add: pl)
  ultimately show ?thesis using typed len
    by (simp add: pl previousRounds_filter [OF uniq])
qed

text \<open>
  C3. In every reachable session each player's total is the sum of that player's
  scores over the history, whatever sequence of finishing, undoing and finishing again
  led there. When \<open>finishRound\<close> succeeds in such a session, every player's new total is
  the sum of the player's scores over the history entries of the other rounds plus the
  score just computed for the current round, and it is the sum of the player's scores
  over the resulting history.
\<close>

theorem finishRound_totals:
  assumes "reachable s"
  shows "(\<forall>i < length (players s).
            totalScore (players s ! i)
              = sum_list (map (\<lambda>entry. scoreOrZero entry i) (gameHistory s)))
         \<and> (finishRound s = (Finished, s') \<longrightarrow>
              (\<forall>i < length (players s).
                 \<exists>data. lookup (roundData s) i = Some (Typed data)
                   \<and> totalScore (players s' ! i)
                       = sum_list (map (\<lambda>entry. scoreOrZero entry i)
                            (filter (\<lambda>entry. round entry \<noteq> currentRound s) (gameHistory s)))
                         + calculateScore (currentRound s) data
                   \<and> totalScore (players s' ! i)
                       = sum_list (map (\<lambda>entry. scoreOrZero entry i) (gameHistory s'))
                   \<and> name (players s' ! i) = name (players s ! i))
              \<and> length (players s') = length (players s))"
proof -
  from assms have "totals_consistent s" by (rule reachable_totals_consistent)
  then have now: "\<forall>i < length (players s).
      totalScore (players s ! i) = sum_list (map (\<lambda>entry. scoreOrZero entry i) (gameHistory s))"
    by (simp add: totals_consistent_def totals_match_def)
  from assms have uniq: "one_entry_per_round (gameHistory s)"
    using reachable_histories_unique by (simp add: histories_unique_def)
  have "(\<forall>i < length (players s).
           \<exists>data. lookup (roundData s) i = Some (Typed data)
             \<and> totalScore (players s' ! i)
                 = sum_list (map (\<lambda>entry. scoreOrZero entry i)
                      (filter (\<lambda>entry. round entry \<noteq> currentRound s) (gameHistory s)))
                   + calculateScore (currentRound s) data
             \<and> totalScore (players s' ! i)
                 = sum_list (map (\<lambda>entry. scoreOrZero entry i) (gameHistory s'))
             \<and> name (players s' ! i) = name (players s ! i))
        \<and> length (players s') = length (players s)"
    if fin: "finishRound s = (Finished, s')"
  proof -
    from finished_totals_match [OF fin]
    have after: "\<forall>i < length (players s').
        totalScore (players s' ! i) = sum_list (map (\<lambda>entry. scoreOrZero entry i) (gameHistory s'))"
      by (simp add: totals_match_def)
    have each: "\<exists>data. lookup (roundData s) i = Some (Typed data)
             \<and> totalScore (players s' ! i)
                 = sum_list (map (\<lambda>entry. scoreOrZero entry i)
                      (filter (\<lambda>entry. round entry \<noteq> currentRound s) (gameHistory s)))
                   + calculateScore (currentRound s) data
             \<and> totalScore (players s' ! i)
                 = sum_list (map (\<lambda>entry. scoreOrZero entry i) (gameHistory s'))
             \<and> name (players s' ! i) = name (players s ! i)
             \<and> length (players s') = length (players s)"
      if i: "i < length (players s)" for i
    proof -
      from finishRound_player_total [OF fin uniq i] obtain data
        where d: "lookup (roundData s) i = Some (Typed data)"
          "totalScore (players s' ! i)
             = sum_list (map (\<lambda>entry. scoreOrZero entry i)
                  (filter (\<lambda>entry. round entry \<noteq> currentRound s) (gameHistory s)))
               + calculateScore (currentRound s) data"
          "length (players s') = length (players s)"
          "name (players s' ! i) = name (players s ! i)"
        by blast
      from after d(3) i have "totalScore (players s' ! i)
          = sum_list (map (\<lambda>entry. scoreOrZero entry i) (gameHistory s'))" by simp
      with d show ?thesis by blast
    qed
    show ?thesis
    proof (cases "players s")
      case Nil
      from finishRound_Finished [OF fin] finishRows_nth(1) have "length (players s') = length (players s)"
        by (metis length_map)
      with Nil show ?thesis by simp
    next
      case (Cons p ps)
      then have "0 < length (players s)" by simp
      from each [OF this] have "length (players s') = length (players s)" by blast
      with each show ?thesis by blast
    qed
  qed
  with now show ?thesis by blast
qed

theorem finishRound_totals_witness:
  "reachable replaySession
   \<and> finishRound replaySession = (Finished, snd (finishRound replaySession))
   \<and> (1::nat) < length (players replaySession)
   \<and> totalScore (players replaySession ! 1) = 20
   \<and> sum_list (map (\<lambda>entry. scoreOrZero entry 1) (gameHistory replaySession)) = 20
   \<and> totalScore (players (snd (finishRound replaySession)) ! 1) = - 10
   \<and> sum_list (map (\<lambda>entry. scoreOrZero entry 1) (gameHistory (snd (finishRound replaySession)))) = - 10"
proof -
  have ok: "fst (finishRound replaySession) = Finished"
    by (simp add: replaySession_def replayTrace_def op_defs Let_def upt_rec)
  then have fin: "finishRound replaySession = (Finished, snd (finishRound replaySession))"
    by (simp add: prod_eq_iff)
  have i: "1 < length (players replaySession)"
    by (simp add: replaySession_def replayTrace_def op_defs Let_def upt_rec)
  have before: "totalScore (players replaySession ! 1) = 20"
    by (simp add: replaySession_def replayTrace_def op_defs Let_def upt_rec)
  have data: "lookup (roundData replaySession) 1
      = Some (Typed \<lparr>bid = 1, tricks = 0, piratesCapture = 0, skullKingCapture = False\<rparr>)"
    by (simp add: replaySession_def replayTrace_def op_defs Let_def upt_rec)
  have rest: "filter (\<lambda>entry. round entry \<noteq> currentRound replaySession) (gameHistory replaySession) = []"
    and cur: "currentRound replaySession = 1"
    by (simp_all add: replaySession_def replayTrace_def op_defs Let_def upt_rec)
  note inst = finishRound_totals [OF replaySession_reachable, of "snd (finishRound replaySession)"]
  from inst i before have sum_before:
    "sum_list (map (\<lambda>entry. scoreOrZero entry 1) (gameHistory replaySession)) = 20"
    by auto
  from inst fin i obtain d where d: "lookup (roundData replaySession) 1 = Some (Typed d)"
    "totalScore (players (snd (finishRound replaySession)) ! 1)
       = sum_list (map (\<lambda>entry. scoreOrZero entry 1)
            (filter (\<lambda>entry. round entry \<noteq> currentRound replaySession) (gameHistory replaySession)))
         + calculateScore (currentRound replaySession) d"
    "totalScore (players (snd (finishRound replaySession)) ! 1)
       = sum_list (map (\<lambda>entry. scoreOrZero entry 1) (gameHistory (snd (finishRound replaySession))))"
    by blast
  from d(1) data have "d = \<lparr>bid = 1, tricks = 0, piratesCapture = 0, skullKingCapture = False\<rparr>"
    by simp
  with d(2) rest cur have after: "totalScore (players (snd (finishRound replaySession)) ! 1) = - 10"
    by (simp add: calculateScore_def)
  with d(3) have "sum_list (map (\<lambda>entry. scoreOrZero entry 1)
      (gameHistory (snd (finishRound replaySession)))) = - 10" by simp
  with replaySession_reachable fin i before sum_before after show ?thesis by blast
qed

section \<open>History entries\<close>



section \<open>Starting a game\<close>




section \<open>Guards\<close>


text \<open>The guards that the other operations of C7 do have.\<close>

lemma trim_spaces: "list_all is_space str \<Longrightarrow> trim str = []"
proof -
  assume "list_all is_space str"
  then have empty: "dropWhile is_space str = []" by (induction str) simp_all
  show ?thesis unfolding trim_def empty by simp
qed

lemma guarded_operations:
  "lookup (roundData s) i = None \<Longrightarrow> updateTricks i delta s = s"
  "lookup (roundData s) i = None \<Longrightarrow> updatePiratesCapture i delta s = s"
  "lookup (roundData s) i = None \<Longrightarrow> toggleSkullKingCapture i s = s"
  "length (players s) < 2 \<Longrightarrow> startGame s = s"
  "length (players s) \<ge> 6 \<Longrightarrow> addPlayer playerName s = s"
  "list_all is_space playerName \<Longrightarrow> addPlayer playerName s = s"
  "phaseHistory s = [] \<Longrightarrow> performUndo s = s"
  by (simp_all add: updateTricks_def updatePiratesCapture_def toggleSkullKingCapture_def
      startGame_def addPlayer_def trim_spaces performUndo_def popSnapshot_def)

end
